theory Spec2Isabelle
  imports Complex_Main
begin

section \<open>JavaScript numbers\<close>

text \<open>
  The scheduler computes with JavaScript numbers, which are IEEE 754 doubles. A
  \<open>jsnum\<close> is a finite number, an infinity or \<open>NaN\<close>; \<open>Fin r\<close> stands for the double
  nearest to the rational \<open>r\<close> (as the literal \<open>r\<close> does in a program), so every
  operation first takes its arguments to doubles (\<open>dbl\<close>) and rounds its exact result
  to the nearest double, ties to even, overflowing to an infinity (\<open>rnd\<close>). The sign
  of zero is not modelled: \<open>-0\<close> is \<open>0\<close>.
\<close>

datatype jsnum = Fin rat | PInf | NInf | NaN

text \<open>The number of binary digits of a positive integer, and the powers of two.\<close>

function bits :: "int \<Rightarrow> int" where
  "bits n = (if n \<le> 0 then 0 else 1 + bits (n div 2))"
  by pat_completeness auto
termination
  by (relation "measure nat") auto

function pow2 :: "int \<Rightarrow> rat" where
  "pow2 k = (if k = 0 then 1 else if 0 < k then 2 * pow2 (k - 1) else pow2 (k + 1) / 2)"
  by pat_completeness auto
termination
  by (relation "measure (\<lambda>k. nat \<bar>k\<bar>)") auto

text \<open>The binary exponent of a positive rational: \<open>2 ^ ilog2 a <= a < 2 ^ (ilog2 a + 1)\<close>.\<close>

definition ilog2 :: "rat \<Rightarrow> int" where
  "ilog2 a = (let (n, d) = quotient_of a; k = bits n - bits d
              in if pow2 k \<le> a then k else k - 1)"

definition round_half_even :: "rat \<Rightarrow> int" where
  "round_half_even r =
     (let f = \<lfloor>r\<rfloor>; d = r - of_int f
      in if d < 1 / 2 then f else if 1 / 2 < d then f + 1
         else if even f then f else f + 1)"

text \<open>
  Rounding to binary64: 53 significant bits, exponents from \<open>-1022\<close> (below it the
  subnormal spacing \<open>2 ^ -1074\<close>) to \<open>1023\<close>; a result of \<open>2 ^ 1024\<close> or more is an
  infinity.
\<close>

definition rnd :: "rat \<Rightarrow> jsnum" where
  "rnd x =
     (if x = 0 then Fin 0
      else let a = \<bar>x\<bar>; e = max (ilog2 a) (- 1022); q = e - 52;
               m = round_half_even (a / pow2 q)
           in if 1024 \<le> e \<or> (e = 1023 \<and> m = 9007199254740992)
              then (if 0 < x then PInf else NInf)
              else Fin ((if 0 < x then 1 else - 1) * of_int m * pow2 q))"

definition dbl :: "jsnum \<Rightarrow> jsnum" where
  "dbl x = (case x of Fin r \<Rightarrow> rnd r | _ \<Rightarrow> x)"

text \<open>The operations on doubles, with the IEEE rules for the special values.\<close>

fun add_d :: "jsnum \<Rightarrow> jsnum \<Rightarrow> jsnum" where
  "add_d NaN _ = NaN"
| "add_d _ NaN = NaN"
| "add_d (Fin a) (Fin b) = rnd (a + b)"
| "add_d PInf NInf = NaN"
| "add_d NInf PInf = NaN"
| "add_d PInf _ = PInf"
| "add_d _ PInf = PInf"
| "add_d NInf _ = NInf"
| "add_d _ NInf = NInf"

fun mul_d :: "jsnum \<Rightarrow> jsnum \<Rightarrow> jsnum" where
  "mul_d NaN _ = NaN"
| "mul_d _ NaN = NaN"
| "mul_d (Fin a) (Fin b) = rnd (a * b)"
| "mul_d (Fin a) PInf = (if a = 0 then NaN else if 0 < a then PInf else NInf)"
| "mul_d (Fin a) NInf = (if a = 0 then NaN else if 0 < a then NInf else PInf)"
| "mul_d PInf (Fin b) = (if b = 0 then NaN else if 0 < b then PInf else NInf)"
| "mul_d NInf (Fin b) = (if b = 0 then NaN else if 0 < b then NInf else PInf)"
| "mul_d PInf PInf = PInf"
| "mul_d PInf NInf = NInf"
| "mul_d NInf PInf = NInf"
| "mul_d NInf NInf = PInf"

fun div_d :: "jsnum \<Rightarrow> jsnum \<Rightarrow> jsnum" where
  "div_d NaN _ = NaN"
| "div_d _ NaN = NaN"
| "div_d (Fin a) (Fin b) =
     (if b = 0 then (if a = 0 then NaN else if 0 < a then PInf else NInf)
      else rnd (a / b))"
| "div_d (Fin a) PInf = Fin 0"
| "div_d (Fin a) NInf = Fin 0"
| "div_d PInf (Fin b) = (if 0 \<le> b then PInf else NInf)"
| "div_d NInf (Fin b) = (if 0 \<le> b then NInf else PInf)"
| "div_d PInf PInf = NaN"
| "div_d PInf NInf = NaN"
| "div_d NInf PInf = NaN"
| "div_d NInf NInf = NaN"

text \<open>\<open>a <= b\<close> and \<open>a < b\<close> on doubles: every comparison with \<open>NaN\<close> is false.\<close>

fun le_d :: "jsnum \<Rightarrow> jsnum \<Rightarrow> bool" where
  "le_d NaN _ = False"
| "le_d _ NaN = False"
| "le_d (Fin a) (Fin b) = (a \<le> b)"
| "le_d NInf _ = True"
| "le_d _ PInf = True"
| "le_d PInf _ = False"
| "le_d _ NInf = False"

fun lt_d :: "jsnum \<Rightarrow> jsnum \<Rightarrow> bool" where
  "lt_d NaN _ = False"
| "lt_d _ NaN = False"
| "lt_d (Fin a) (Fin b) = (a < b)"
| "lt_d PInf _ = False"
| "lt_d _ NInf = False"
| "lt_d NInf _ = True"
| "lt_d _ PInf = True"

text \<open>The operators \<open>+\<close>, \<open>*\<close>, \<open>/\<close>, \<open><=\<close>, \<open><\<close> and \<open>>\<close> of the program.\<close>

definition js_add :: "jsnum \<Rightarrow> jsnum \<Rightarrow> jsnum" where
  "js_add a b = add_d (dbl a) (dbl b)"

definition js_mul :: "jsnum \<Rightarrow> jsnum \<Rightarrow> jsnum" where
  "js_mul a b = mul_d (dbl a) (dbl b)"

definition js_div :: "jsnum \<Rightarrow> jsnum \<Rightarrow> jsnum" where
  "js_div a b = div_d (dbl a) (dbl b)"

definition js_le :: "jsnum \<Rightarrow> jsnum \<Rightarrow> bool" where
  "js_le a b = le_d (dbl a) (dbl b)"

definition js_lt :: "jsnum \<Rightarrow> jsnum \<Rightarrow> bool" where
  "js_lt a b = lt_d (dbl a) (dbl b)"

definition js_gt :: "jsnum \<Rightarrow> jsnum \<Rightarrow> bool" where
  "js_gt a b = js_lt b a"

text \<open>A finite number: neither an infinity nor \<open>NaN\<close>.\<close>

definition is_fin :: "jsnum \<Rightarrow> bool" where
  "is_fin a = (case dbl a of Fin _ \<Rightarrow> True | _ \<Rightarrow> False)"

text \<open>
  A property that may be absent or hold a non-number is a \<open>jsnum option\<close>: \<open>None\<close> is
  \<open>typeof x !== "number"\<close>. Arithmetic on \<open>undefined\<close> gives \<open>NaN\<close>.
\<close>

definition num :: "jsnum option \<Rightarrow> jsnum" where
  "num v = (case v of None \<Rightarrow> NaN | Some x \<Rightarrow> x)"

section \<open>Score event specifications\<close>

text \<open>
  A score event specification is a mutable JavaScript object. \<open>ident\<close> is the identity
  of the object (two objects with the same properties differ in it); the other fields
  are its properties. The queue holds the object by value, so an assignment to a
  queued object is the replacement of its queue entry; an object is taken to be
  queued at most once at a time. \<open>callback\<close> names the function stored in the property
  (\<open>None\<close>: the property holds no function). \<open>endTime\<close> is the property \<open>end\<close>.
\<close>

record eventSpec =
  ident :: nat
  type :: "string option"
  time :: "jsnum option"
  freq :: "jsnum option"
  endTime :: "jsnum option"
  callback :: "nat option"
  scheduledAt :: "jsnum option"
  interval :: "jsnum option"
  priority :: "jsnum option"

section \<open>The priority queue\<close>

text \<open>
  Modelled from the spec: \<open>berg.priorityQueue\<close> (the member \<open>queue\<close> of the scheduler)
  is not among the sources. The spec gives its contract: \<open>push\<close>, \<open>peek\<close> (the
  minimum-priority item, or nothing when empty), \<open>pop\<close> (removes that item),
  \<open>remove\<close> (removes one item by identity, a no-op when it is absent), \<open>clear\<close>, and the
  array \<open>items\<close> that \<open>scaleEventTimes\<close> walks. The queue is the list of its items, in
  insertion order; the priority of an item is its property \<open>priority\<close>. Among items of
  equal priority \<open>peek\<close> takes the one inserted first (the spec leaves the order open).
\<close>

type_synonym priorityQueue = "eventSpec list"

definition push :: "eventSpec \<Rightarrow> priorityQueue \<Rightarrow> priorityQueue" where
  "push item q = q @ [item]"

fun minItem :: "eventSpec \<Rightarrow> eventSpec list \<Rightarrow> eventSpec" where
  "minItem best [] = best"
| "minItem best (x # xs) =
     minItem (if js_lt (num (priority x)) (num (priority best)) then x else best) xs"

fun peek :: "priorityQueue \<Rightarrow> eventSpec option" where
  "peek [] = None"
| "peek (x # xs) = Some (minItem x xs)"

definition pop :: "priorityQueue \<Rightarrow> priorityQueue" where
  "pop q = (case peek q of None \<Rightarrow> q | Some m \<Rightarrow> remove1 m q)"

fun remove :: "eventSpec \<Rightarrow> priorityQueue \<Rightarrow> priorityQueue" where
  "remove item [] = []"
| "remove item (x # xs) = (if ident x = ident item then xs else x # remove item xs)"

definition clear_queue :: "priorityQueue \<Rightarrow> priorityQueue" where
  "clear_queue q = []"

section \<open>The scheduler\<close>

text \<open>
  The state of a \<open>berg.scheduler\<close>: its queue, \<open>model.timeScale\<close>, and the time of its
  clock (\<open>that.clock.time\<close>, advanced by the clock itself). \<open>trace\<close> is not a field of
  the component: it records every callback invocation, as the pair of the identity of
  the event and the time passed to the callback, so that theorems can speak of them.
\<close>

record scheduler =
  queue :: priorityQueue
  timeScale :: jsnum
  clock_time :: jsnum
  trace :: "(nat \<times> jsnum) list"

datatype error = NoCallback | NoFreq | NoTime | NotAFunction

text \<open>
  Callback bodies are opaque user code that may call back into the scheduler. The
  environment \<open>env\<close> gives each callback name its effect on the scheduler, as a function
  of the arguments \<open>(now, scoreEvent)\<close> of the call. Callbacks that throw, and
  callbacks that assign to the properties of the event they are given, are not
  modelled.
\<close>

type_synonym callbacks = "nat \<Rightarrow> jsnum \<Rightarrow> eventSpec \<Rightarrow> scheduler \<Rightarrow> scheduler"

type_synonym 'a result = "(error \<times> scheduler) + ('a \<times> scheduler)"

definition calcPriority :: "jsnum \<Rightarrow> jsnum \<Rightarrow> jsnum \<Rightarrow> jsnum" where
  "calcPriority baseTime timeOffset ts = js_add baseTime (js_mul timeOffset ts)"

definition scaleEventTimes :: "priorityQueue \<Rightarrow> jsnum \<Rightarrow> priorityQueue" where
  "scaleEventTimes q ts =
     map (\<lambda>item. item\<lparr>priority :=
            Some (calcPriority (num (scheduledAt item)) (num (time item)) ts)\<rparr>) q"

definition expandRepeatingEventSpec :: "jsnum \<Rightarrow> eventSpec \<Rightarrow> eventSpec" where
  "expandRepeatingEventSpec now eventSpec =
     (let e1 = (if time eventSpec = None then eventSpec\<lparr>time := Some (Fin 0)\<rparr>
                else eventSpec);
          e2 = e1\<lparr>interval := Some (js_div (Fin 1) (num (freq e1)))\<rparr>
      in e2\<lparr>endTime := (case endTime e2 of None \<Rightarrow> Some PInf
                          | Some e \<Rightarrow> Some (js_add e now))\<rparr>)"

definition validateEventSpec :: "eventSpec \<Rightarrow> error + unit" where
  "validateEventSpec eventSpec =
     (if callback eventSpec = None then Inl NoCallback
      else if type eventSpec = Some ''repeat'' \<and> freq eventSpec = None then Inl NoFreq
      else if time eventSpec = None then Inl NoTime
      else Inr ())"

text \<open>
  \<open>scoreEvent.callback(now, scoreEvent)\<close>: calling a property that holds no function
  throws a TypeError.
\<close>

definition invoke :: "callbacks \<Rightarrow> eventSpec \<Rightarrow> jsnum \<Rightarrow> scheduler \<Rightarrow> unit result" where
  "invoke env scoreEvent now that =
     (case callback scoreEvent of
        None \<Rightarrow> Inl (NotAFunction, that)
      | Some c \<Rightarrow>
          Inr ((), env c now scoreEvent
                     (that\<lparr>trace := trace that @ [(ident scoreEvent, now)]\<rparr>)))"

text \<open>Returns the event as the call leaves it (re-armed or not) and the new state.\<close>

definition evaluateScoreEvent ::
  "callbacks \<Rightarrow> eventSpec \<Rightarrow> jsnum \<Rightarrow> jsnum \<Rightarrow> scheduler \<Rightarrow> eventSpec result" where
  "evaluateScoreEvent env scoreEvent now ts that =
     (case invoke env scoreEvent now that of
        Inl err \<Rightarrow> Inl err
      | Inr (_, that1) \<Rightarrow>
          if type scoreEvent = Some ''repeat'' \<and> js_gt (num (endTime scoreEvent)) now
          then (let ev = scoreEvent\<lparr>priority :=
                           Some (calcPriority now (num (interval scoreEvent)) ts)\<rparr>
                in Inr (ev, that1\<lparr>queue := push ev (queue that1)\<rparr>))
          else Inr (scoreEvent, that1))"

text \<open>\<open>!eventSpec.type\<close>: the property is absent or the empty string.\<close>

definition falsy :: "string option \<Rightarrow> bool" where
  "falsy t = (t = None \<or> t = Some [])"

definition scheduleEvent :: "callbacks \<Rightarrow> eventSpec \<Rightarrow> scheduler \<Rightarrow> eventSpec result" where
  "scheduleEvent env eventSpec that =
     (let now = clock_time that;
          ts = timeScale that;
          e1 = (if falsy (type eventSpec) then eventSpec\<lparr>type := Some ''once''\<rparr>
                else eventSpec);
          e2 = (if type e1 = Some ''repeat'' then expandRepeatingEventSpec now e1 else e1);
          e3 = (if scheduledAt e2 = None then e2\<lparr>scheduledAt := Some now\<rparr> else e2)
      in case validateEventSpec e3 of
           Inl err \<Rightarrow> Inl (err, that)
         | Inr _ \<Rightarrow>
             (let e4 = e3\<lparr>priority := Some (calcPriority now (num (time e3)) ts)\<rparr>
              in if js_le (num (priority e4)) now
                 then evaluateScoreEvent env e4 now ts that
                 else Inr (e4, that\<lparr>queue := push e4 (queue that)\<rparr>)))"

text \<open>\<open>scheduleEvents\<close>: \<open>forEach\<close> over the array; the first exception ends the loop.\<close>

fun scheduleEvents ::
  "callbacks \<Rightarrow> eventSpec list \<Rightarrow> scheduler \<Rightarrow> eventSpec list result" where
  "scheduleEvents env [] that = Inr ([], that)"
| "scheduleEvents env (eventSpec # rest) that =
     (case scheduleEvent env eventSpec that of
        Inl err \<Rightarrow> Inl err
      | Inr (e, that1) \<Rightarrow>
          (case scheduleEvents env rest that1 of
             Inl err \<Rightarrow> Inl err
           | Inr (es, that2) \<Rightarrow> Inr (e # es, that2)))"

text \<open>\<open>schedule\<close> takes one specification or an array of them.\<close>

datatype scoreSpecs = One eventSpec | Many "eventSpec list"

definition schedule :: "callbacks \<Rightarrow> scoreSpecs \<Rightarrow> scheduler \<Rightarrow> scoreSpecs result" where
  "schedule env specs that =
     (case specs of
        Many eventSpecs \<Rightarrow>
          (case scheduleEvents env eventSpecs that of
             Inl err \<Rightarrow> Inl err
           | Inr (es, that1) \<Rightarrow> Inr (Many es, that1))
      | One eventSpec \<Rightarrow>
          (case scheduleEvent env eventSpec that of
             Inl err \<Rightarrow> Inl err
           | Inr (e, that1) \<Rightarrow> Inr (One e, that1)))"

text \<open>
  \<open>once\<close> and \<open>repeat\<close> build a new object (of identity \<open>i\<close>) from their arguments,
  which may be of any type.
\<close>

definition once ::
  "callbacks \<Rightarrow> nat \<Rightarrow> jsnum option \<Rightarrow> nat option \<Rightarrow> scheduler \<Rightarrow> eventSpec result" where
  "once env i t cb that =
     scheduleEvent env
       \<lparr>ident = i, type = Some ''once'', time = t, freq = None, endTime = None,
        callback = cb, scheduledAt = None, interval = None, priority = None\<rparr> that"

definition repeat ::
  "callbacks \<Rightarrow> nat \<Rightarrow> jsnum option \<Rightarrow> nat option \<Rightarrow> jsnum option \<Rightarrow> jsnum option \<Rightarrow>
   scheduler \<Rightarrow> eventSpec result" where
  "repeat env i f cb t e that =
     scheduleEvent env
       \<lparr>ident = i, type = Some ''repeat'', time = t, freq = f, endTime = e,
        callback = cb, scheduledAt = None, interval = None, priority = None\<rparr> that"

text \<open>
  The drain loop of \<open>berg.scheduler.tick\<close>. It may run forever, so it is a partial
  function: \<open>None\<close> is a loop that never exits, \<open>Some (Inl _)\<close> an exception that leaves
  it, \<open>Some (Inr _)\<close> a normal return.
\<close>

partial_function (option) tick ::
  "callbacks \<Rightarrow> jsnum \<Rightarrow> jsnum \<Rightarrow> scheduler \<Rightarrow> ((error \<times> scheduler) + scheduler) option" where
  "tick env now ts that =
     (case peek (queue that) of
        None \<Rightarrow> Some (Inr that)
      | Some next \<Rightarrow>
          if js_le (num (priority next)) now
          then (case evaluateScoreEvent env next now ts (that\<lparr>queue := pop (queue that)\<rparr>) of
                  Inl err \<Rightarrow> Some (Inl err)
                | Inr (_, that1) \<Rightarrow> tick env now ts that1)
          else Some (Inr that))"

declare tick.simps [code]

text \<open>The invokers of the component, with \<open>{that}.model.timeScale\<close> read at the call.\<close>

definition tick_invoker ::
  "callbacks \<Rightarrow> jsnum \<Rightarrow> scheduler \<Rightarrow> ((error \<times> scheduler) + scheduler) option" where
  "tick_invoker env now that = tick env now (timeScale that) that"

definition clear :: "eventSpec \<Rightarrow> scheduler \<Rightarrow> scheduler" where
  "clear eventSpec that = that\<lparr>queue := remove eventSpec (queue that)\<rparr>"

definition clearAll :: "scheduler \<Rightarrow> scheduler" where
  "clearAll that = that\<lparr>queue := clear_queue (queue that)\<rparr>"

text \<open>
  \<open>setTimeScale\<close> is a change of \<open>model.timeScale\<close>; \<open>scaleEventTimes\<close> is the model
  listener on that path. A model listener is notified when the value at its path
  changes: a call with the number the model already holds changes nothing and runs no
  listener.
\<close>

definition setTimeScale :: "jsnum \<Rightarrow> scheduler \<Rightarrow> scheduler" where
  "setTimeScale v that =
     (if dbl v = dbl (timeScale that) then that
      else that\<lparr>timeScale := v, queue := scaleEventTimes (queue that) v\<rparr>)"

section \<open>Observations used by the theorems\<close>

text \<open>The loop condition of \<open>tick\<close> is false: the queue is empty or its head is not due.\<close>

definition drained :: "jsnum \<Rightarrow> priorityQueue \<Rightarrow> bool" where
  "drained now q =
     (case peek q of None \<Rightarrow> True | Some next \<Rightarrow> \<not> js_le (num (priority next)) now)"

text \<open>The times at which the callback of the event of identity \<open>i\<close> has been invoked.\<close>

definition firings :: "nat \<Rightarrow> scheduler \<Rightarrow> jsnum list" where
  "firings i that = map snd (filter (\<lambda>p. fst p = i) (trace that))"

text \<open>The queue entries that are the object of identity \<open>i\<close>.\<close>

definition mine :: "nat \<Rightarrow> priorityQueue \<Rightarrow> eventSpec list" where
  "mine i q = filter (\<lambda>x. ident x = i) q"

text \<open>Callbacks that do not call back into the scheduler.\<close>

definition quiet :: "callbacks \<Rightarrow> bool" where
  "quiet env = (\<forall>c now e s. env c now e s = s)"

text \<open>A run of clock ticks, each calling the invoker \<open>tick\<close> with the new time.\<close>

fun ticks ::
  "callbacks \<Rightarrow> jsnum list \<Rightarrow> scheduler \<Rightarrow> ((error \<times> scheduler) + scheduler) option" where
  "ticks env [] that = Some (Inr that)"
| "ticks env (now # rest) that =
     (case tick_invoker env now that of
        None \<Rightarrow> None
      | Some (Inl err) \<Rightarrow> Some (Inl err)
      | Some (Inr that1) \<Rightarrow> ticks env rest that1)"

text \<open>
  No queued priority is \<open>NaN\<close>, and every queued repeat has a finite interval: then
  the priorities in the queue are totally ordered, and stay so when repeats are
  re-armed at finite times under a finite time scale (the new priority may overflow
  to an infinity, but is not \<open>NaN\<close>).
\<close>

definition numeric :: "priorityQueue \<Rightarrow> bool" where
  "numeric q =
     list_all (\<lambda>x. num (priority x) \<noteq> NaN \<and>
                    (type x = Some ''repeat'' \<longrightarrow> is_fin (num (interval x)))) q"

text \<open>
  The two outcomes of \<open>evaluateScoreEvent\<close> for the event itself: \<open>rearms\<close> is the
  test that queues it back up, \<open>rearm\<close> the event as it is then pushed.
\<close>

definition rearms :: "jsnum \<Rightarrow> eventSpec \<Rightarrow> bool" where
  "rearms now ev = (type ev = Some ''repeat'' \<and> js_gt (num (endTime ev)) now)"

definition rearm :: "jsnum \<Rightarrow> jsnum \<Rightarrow> eventSpec \<Rightarrow> eventSpec" where
  "rearm now ts ev = ev\<lparr>priority := Some (js_add now (js_mul (num (interval ev)) ts))\<rparr>"

text \<open>
  Callbacks that neither schedule the object of identity \<open>i\<close> nor invoke its callback;
  anything else (scheduling or clearing other events, changing the time scale) is open
  to them.
\<close>

definition leaves :: "nat \<Rightarrow> callbacks \<Rightarrow> bool" where
  "leaves i env =
     (\<forall>c now e s. firings i (env c now e s) = firings i s \<and>
        (mine i (queue s) = [] \<longrightarrow> mine i (queue (env c now e s)) = []))"

text \<open>
  Every queued repeat that would be queued back up at \<open>now\<close> gets a due time
  \<open>now + interval * timeScale\<close>, as the program computes it, that is not \<open><= now\<close>.
\<close>

definition rearmed_later :: "jsnum \<Rightarrow> jsnum \<Rightarrow> priorityQueue \<Rightarrow> bool" where
  "rearmed_later now ts q =
     list_all (\<lambda>x. rearms now x \<longrightarrow>
                    \<not> js_le (js_add now (js_mul (num (interval x)) ts)) now) q"

text \<open>
  Callbacks that do nothing to the scheduler, or call \<open>clear\<close> on the event they are
  invoked for (their second argument).
\<close>

definition clears_self_only :: "callbacks \<Rightarrow> bool" where
  "clears_self_only env = (\<forall>c now e s. env c now e s = s \<or> env c now e s = clear e s)"

text \<open>
  The first \<open>n\<close> due times of a repeat as the scheduler computes them: each is the
  one before plus the step \<open>d\<close>, in the arithmetic of the program.
\<close>

fun due_times :: "jsnum \<Rightarrow> jsnum \<Rightarrow> nat \<Rightarrow> jsnum list" where
  "due_times p d 0 = []"
| "due_times p d (Suc n) = p # due_times (js_add p d) d n"

text \<open>Every queued event has a callback that is a function.\<close>

definition callable :: "priorityQueue \<Rightarrow> bool" where
  "callable q = list_all (\<lambda>x. callback x \<noteq> None) q"

text \<open>\<open>rearmed_later\<close> for each of the times \<open>nows\<close>.\<close>

definition steady :: "jsnum list \<Rightarrow> jsnum \<Rightarrow> priorityQueue \<Rightarrow> bool" where
  "steady nows ts q = list_all (\<lambda>now. rearmed_later now ts q) nows"

section \<open>The drain loop\<close>

lemma tick_induct [consumes 1, case_names stop error step]:
  assumes run: "tick env now ts that = Some r"
    and stop: "\<And>that. drained now (queue that) \<Longrightarrow> P that (Inr that)"
    and err: "\<And>that next e. peek (queue that) = Some next \<Longrightarrow>
           js_le (num (priority next)) now \<Longrightarrow>
           evaluateScoreEvent env next now ts (that\<lparr>queue := pop (queue that)\<rparr>) = Inl e \<Longrightarrow>
           P that (Inl e)"
    and step: "\<And>that next ev that1 r. peek (queue that) = Some next \<Longrightarrow>
           js_le (num (priority next)) now \<Longrightarrow>
           evaluateScoreEvent env next now ts (that\<lparr>queue := pop (queue that)\<rparr>) = Inr (ev, that1) \<Longrightarrow>
           tick env now ts that1 = Some r \<Longrightarrow> P that1 r \<Longrightarrow> P that r"
  shows "P that r"
proof -
  have "env = env \<and> now = now \<and> ts = ts \<longrightarrow> tick env now ts that = Some r \<and> P that r"
  proof (rule tick.raw_induct[where P = "\<lambda>env' now' ts' that r.
           env' = env \<and> now' = now \<and> ts' = ts \<longrightarrow> tick env now ts that = Some r \<and> P that r",
           OF _ run], goal_cases)
    case (1 f env' now' ts' that r)
    show ?case
    proof (intro impI)
      assume eqs: "env' = env \<and> now' = now \<and> ts' = ts"
      note body = 1(2)[unfolded] and IH = 1(1)
      show "tick env now ts that = Some r \<and> P that r"
      proof (cases "peek (queue that)")
        case None
        with body eqs show ?thesis
          by (subst tick.simps) (auto simp: drained_def intro: stop)
      next
        case (Some nx)
        show ?thesis
        proof (cases "js_le (num (priority nx)) now")
          case False
          with Some body eqs show ?thesis
            by (subst tick.simps) (auto simp: drained_def intro: stop)
        next
          case True
          show ?thesis
          proof (cases "evaluateScoreEvent env nx now ts (that\<lparr>queue := pop (queue that)\<rparr>)")
            case (Inl e)
            with Some True body eqs show ?thesis
              by (subst tick.simps) (auto intro: err)
          next
            case (Inr p)
            obtain ev that1 where p: "p = (ev, that1)" by (cases p)
            from Some True body eqs Inr p have "f env now ts that1 = Some r" by simp
            from IH[OF this] eqs have t1: "tick env now ts that1 = Some r" and P1: "P that1 r"
              by simp_all
            have "tick env now ts that = Some r"
              using Some True Inr p t1 by (subst tick.simps) simp
            moreover have "P that r"
              using step[OF Some True _ t1 P1] Inr p by simp
            ultimately show ?thesis ..
          qed
        qed
      qed
    qed
  qed
  then show ?thesis by simp
qed


section \<open>Numbers\<close>

lemma rnd_not_NaN: "rnd r \<noteq> NaN"
  by (simp add: rnd_def Let_def)

lemma dbl_NaN: "dbl a = NaN \<longleftrightarrow> a = NaN"
  by (cases a) (simp_all add: dbl_def rnd_not_NaN)

lemma le_d_trans: "le_d a b \<Longrightarrow> le_d b c \<Longrightarrow> le_d a c"
  by (cases a; cases b; cases c) auto

lemma lt_d_imp_le: "lt_d a b \<Longrightarrow> le_d a b"
  by (cases a; cases b) auto

lemma not_lt_d_imp_le: "\<not> lt_d a b \<Longrightarrow> a \<noteq> NaN \<Longrightarrow> b \<noteq> NaN \<Longrightarrow> le_d b a"
  by (cases a; cases b) auto

lemma le_d_refl: "a \<noteq> NaN \<Longrightarrow> le_d a a"
  by (cases a) auto

lemma lt_d_not_le: "lt_d b a \<Longrightarrow> \<not> le_d a b"
  by (cases a; cases b) auto

lemma lt_d_not_NaN: "lt_d a b \<Longrightarrow> a \<noteq> NaN \<and> b \<noteq> NaN"
  by (cases a; cases b) auto

lemma le_d_not_NaN: "le_d a b \<Longrightarrow> a \<noteq> NaN \<and> b \<noteq> NaN"
  by (cases a; cases b) auto

lemma le_d_lt_trans: "le_d b e \<Longrightarrow> \<not> le_d b a \<Longrightarrow> a \<noteq> NaN \<Longrightarrow> lt_d a e"
  by (cases a; cases b; cases e) auto

lemma js_le_trans: "js_le a b \<Longrightarrow> js_le b c \<Longrightarrow> js_le a c"
  unfolding js_le_def by (rule le_d_trans)

lemma js_lt_imp_le: "js_lt a b \<Longrightarrow> js_le a b"
  unfolding js_le_def js_lt_def by (rule lt_d_imp_le)

lemma js_not_lt_imp_le: "\<not> js_lt a b \<Longrightarrow> a \<noteq> NaN \<Longrightarrow> b \<noteq> NaN \<Longrightarrow> js_le b a"
  unfolding js_le_def js_lt_def by (rule not_lt_d_imp_le) (simp_all add: dbl_NaN)

lemma js_le_refl: "a \<noteq> NaN \<Longrightarrow> js_le a a"
  unfolding js_le_def by (rule le_d_refl) (simp add: dbl_NaN)

lemma js_gt_not_le: "js_gt a b \<Longrightarrow> \<not> js_le a b"
  unfolding js_le_def js_gt_def js_lt_def by (rule lt_d_not_le)

lemma js_gt_not_NaN: "js_gt a b \<Longrightarrow> a \<noteq> NaN \<and> b \<noteq> NaN"
  unfolding js_gt_def js_lt_def using lt_d_not_NaN[of "dbl b" "dbl a"] by (simp add: dbl_NaN)

lemma js_le_gt_trans: "js_le b e \<Longrightarrow> \<not> js_le b a \<Longrightarrow> a \<noteq> NaN \<Longrightarrow> js_gt e a"
  unfolding js_le_def js_gt_def js_lt_def by (rule le_d_lt_trans) (simp_all add: dbl_NaN)

lemma is_fin_not_NaN: "is_fin a \<Longrightarrow> a \<noteq> NaN"
  by (cases a) (auto simp: is_fin_def dbl_def)

lemma add_d_fin: "y \<noteq> NaN \<Longrightarrow> add_d (Fin a) y \<noteq> NaN"
  by (cases y) (simp_all add: rnd_not_NaN)

lemma calc_not_NaN:
  assumes "is_fin a" "is_fin b" "is_fin c"
  shows "js_add a (js_mul b c) \<noteq> NaN"
proof -
  from assms obtain a' b' c' where d: "dbl a = Fin a'" "dbl b = Fin b'" "dbl c = Fin c'"
    by (auto simp: is_fin_def split: jsnum.splits)
  have "dbl (js_mul b c) \<noteq> NaN" by (simp add: dbl_NaN js_mul_def d rnd_not_NaN)
  then show ?thesis by (simp add: js_add_def d add_d_fin)
qed

section \<open>Queue\<close>

lemma minItem_mem: "minItem b xs \<in> set (b # xs)"
  by (induction xs arbitrary: b) auto

lemma peek_mem: "peek q = Some m \<Longrightarrow> m \<in> set q"
  using minItem_mem by (cases q) auto

lemma minItem_least:
  "\<forall>y \<in> set (b # xs). num (priority y) \<noteq> NaN \<Longrightarrow> y \<in> set (b # xs) \<Longrightarrow>
   js_le (num (priority (minItem b xs))) (num (priority y))"
proof (induction xs arbitrary: b y)
  case Nil
  then show ?case by (simp add: js_le_refl)
next
  case (Cons x xs)
  let ?b = "if js_lt (num (priority x)) (num (priority b)) then x else b"
  have nn: "\<forall>y \<in> set (?b # xs). num (priority y) \<noteq> NaN" using Cons.prems(1) by auto
  have m: "js_le (num (priority (minItem ?b xs))) (num (priority z))" if "z \<in> set (?b # xs)" for z
    using Cons.IH[OF nn that] .
  have bb: "js_le (num (priority ?b)) (num (priority b))" "js_le (num (priority ?b)) (num (priority x))"
    using Cons.prems(1) by (auto simp: js_lt_imp_le js_le_refl js_not_lt_imp_le)
  have mb: "js_le (num (priority (minItem ?b xs))) (num (priority ?b))" by (rule m) simp
  from Cons.prems(2) consider "y = b" | "y = x" | "y \<in> set xs" by auto
  then show ?case
  proof cases
    case 1 then show ?thesis using js_le_trans[OF mb bb(1)] by simp
  next
    case 2 then show ?thesis using js_le_trans[OF mb bb(2)] by simp
  next
    case 3 then show ?thesis using m[of y] by simp
  qed
qed

lemma numeric_drained_not_due:
  assumes "numeric q" "drained now q" "x \<in> set q"
  shows "\<not> js_le (num (priority x)) now"
proof
  assume due: "js_le (num (priority x)) now"
  from assms(3) obtain b xs where q: "q = b # xs" by (cases q) auto
  have nn: "\<forall>y \<in> set (b # xs). num (priority y) \<noteq> NaN"
    using assms(1) by (auto simp: numeric_def q list_all_iff)
  from minItem_least[OF nn] assms(3) q
  have "js_le (num (priority (minItem b xs))) (num (priority x))" by simp
  from js_le_trans[OF this due] assms(2) q show False by (simp add: drained_def)
qed

lemma pop_peek: "peek q = Some m \<Longrightarrow> pop q = remove1 m q"
  by (simp add: pop_def)

lemma filter_remove1_other: "\<not> Q m \<Longrightarrow> filter Q (remove1 m q) = filter Q q"
  by (induction q) auto

lemma mine_remove1_other: "ident m \<noteq> i \<Longrightarrow> mine i (remove1 m q) = mine i q"
  by (simp add: mine_def filter_remove1_other)

lemma mine_remove1_self: "mine i q = [x] \<Longrightarrow> mine i (remove1 x q) = []"
  by (simp add: mine_def filter_remove1)

lemma mine_append: "mine i (q @ r) = mine i q @ mine i r"
  by (simp add: mine_def)

lemma mine_single: "mine i [x] = (if ident x = i then [x] else [])"
  by (simp add: mine_def)

lemma mine_mem: "mine i q = [x] \<Longrightarrow> y \<in> set q \<Longrightarrow> ident y = i \<Longrightarrow> y = x"
proof -
  assume a: "mine i q = [x]" "y \<in> set q" "ident y = i"
  from a(2,3) have "y \<in> set (mine i q)" by (simp add: mine_def)
  with a(1) show ?thesis by simp
qed

lemma mine_in: "mine i q = [x] \<Longrightarrow> x \<in> set q \<and> ident x = i"
proof -
  assume a: "mine i q = [x]"
  then have "x \<in> set (mine i q)" by simp
  then show ?thesis by (simp add: mine_def)
qed

lemma mine_empty: "mine i q = [] \<longleftrightarrow> i \<notin> ident ` set q"
  by (auto simp: mine_def filter_empty_conv)

section \<open>Quiet callbacks\<close>

lemma quiet_evaluate:
  assumes "quiet env"
  shows "evaluateScoreEvent env ev now ts st =
     (case callback ev of
        None \<Rightarrow> Inl (NotAFunction, st)
      | Some c \<Rightarrow>
          if rearms now ev
          then Inr (rearm now ts ev,
                    st\<lparr>trace := trace st @ [(ident ev, now)], queue := queue st @ [rearm now ts ev]\<rparr>)
          else Inr (ev, st\<lparr>trace := trace st @ [(ident ev, now)]\<rparr>))"
  using assms
  by (auto simp: evaluateScoreEvent_def invoke_def quiet_def rearms_def rearm_def push_def
      calcPriority_def Let_def split: option.splits)

lemma quiet_step:
  assumes "quiet env" "peek (queue st) = Some nx"
    "evaluateScoreEvent env nx now ts (st\<lparr>queue := pop (queue st)\<rparr>) = Inr (ev, st1)"
  shows "trace st1 = trace st @ [(ident nx, now)]"
    and "timeScale st1 = timeScale st" and "clock_time st1 = clock_time st"
    and "queue st1 = remove1 nx (queue st) @ (if rearms now nx then [rearm now ts nx] else [])"
  using assms(3) pop_peek[OF assms(2)]
  by (auto simp: quiet_evaluate[OF assms(1)] split: option.splits if_splits)

lemma tick_exit:
  assumes "tick env now ts that = Some (Inr that')"
  shows "drained now (queue that')"
proof -
  have "case r of Inl _ \<Rightarrow> True | Inr s \<Rightarrow> drained now (queue s)"
    if "tick env now ts that = Some r" for r
    using that by (induction rule: tick_induct) simp_all
  from this[OF assms] show ?thesis by simp
qed

text \<open>
  C7. If \<open>tick(now)\<close> returns, a second \<open>tick(now)\<close> right after it returns at once and
  leaves the whole state as it is: no callback is invoked and the queue is unchanged.
\<close>

theorem tick_idempotent:
  assumes "tick_invoker env now that = Some (Inr that')"
  shows "tick_invoker env now that' = Some (Inr that')"
proof -
  from assms have "drained now (queue that')"
    unfolding tick_invoker_def by (rule tick_exit)
  then show ?thesis
    unfolding tick_invoker_def
    by (subst tick.simps) (auto simp: drained_def split: option.splits)
qed

theorem tick_idempotent_witness:
  "tick_invoker (\<lambda>c now e s. s) (Fin 2)
     \<lparr>queue = [\<lparr>ident = 7, type = Some ''once'', time = Some (Fin 2), freq = None,
                 endTime = None, callback = Some 0, scheduledAt = Some (Fin 0),
                 interval = None, priority = Some (Fin 2)\<rparr>],
      timeScale = Fin 1, clock_time = Fin 2, trace = []\<rparr>
   = Some (Inr \<lparr>queue = [], timeScale = Fin 1, clock_time = Fin 2, trace = [(7, Fin 2)]\<rparr>)
   \<and> tick_invoker (\<lambda>c now e s. s) (Fin 2)
       \<lparr>queue = [], timeScale = Fin 1, clock_time = Fin 2, trace = [(7, Fin 2)]\<rparr>
   = Some (Inr \<lparr>queue = [], timeScale = Fin 1, clock_time = Fin 2, trace = [(7, Fin 2)]\<rparr>)"
proof -
  have h: "tick_invoker (\<lambda>c now e s. s) (Fin 2)
     \<lparr>queue = [\<lparr>ident = 7, type = Some ''once'', time = Some (Fin 2), freq = None,
                 endTime = None, callback = Some 0, scheduledAt = Some (Fin 0),
                 interval = None, priority = Some (Fin 2)\<rparr>],
      timeScale = Fin 1, clock_time = Fin 2, trace = []\<rparr>
   = Some (Inr \<lparr>queue = [], timeScale = Fin 1, clock_time = Fin 2, trace = [(7, Fin 2)]\<rparr>)"
    by code_simp
  from tick_idempotent[OF h] h show ?thesis by simp
qed

text \<open>
  C6 fails as stated: \<open>setTimeScale(v)\<close> with the value the model already holds is no
  change, so the listener does not run and no priority is rewritten. Here a repeat
  that has fired at 0 sits in the queue re-armed for 0.5; \<open>setTimeScale(1)\<close> under the
  time scale 1 leaves it there, while \<open>scheduledAt + time * 1\<close> is 0.
\<close>

theorem unchanged_scale_rewrites_nothing:
  "(case repeat (\<lambda>c now e s. s) 7 (Some (Fin 2)) (Some 0) (Some (Fin 0)) None
           \<lparr>queue = [], timeScale = Fin 1, clock_time = Fin 0, trace = []\<rparr> of
      Inl _ \<Rightarrow> False
    | Inr (e, s) \<Rightarrow>
        map priority (queue (setTimeScale (Fin 1) s)) = [Some (Fin (1 / 2))]
        \<and> map (\<lambda>item. Some (js_add (num (scheduledAt item)) (js_mul (num (time item)) (Fin 1))))
              (queue s) = [Some (Fin 0)])"
  by code_simp

text \<open>
  C6, amended. \<open>setTimeScale(v)\<close> with a \<open>v\<close> that differs from the current time scale
  stores \<open>v\<close> and gives every queued item the priority \<open>scheduledAt + time * v\<close>; with
  the current time scale it does nothing. Either way the items stay the same objects in
  the same order with their other properties, no callback is invoked, and doing it a
  second time with the same \<open>v\<close> changes nothing (for every queued item, fired or
  not).
\<close>

theorem setTimeScale_rescales:
  "(dbl v \<noteq> dbl (timeScale that) \<longrightarrow>
      map priority (queue (setTimeScale v that)) =
        map (\<lambda>item. Some (js_add (num (scheduledAt item)) (js_mul (num (time item)) v)))
          (queue that)
      \<and> timeScale (setTimeScale v that) = v)
   \<and> (dbl v = dbl (timeScale that) \<longrightarrow> setTimeScale v that = that)
   \<and> map (\<lambda>item. item\<lparr>priority := None\<rparr>) (queue (setTimeScale v that)) =
     map (\<lambda>item. item\<lparr>priority := None\<rparr>) (queue that)
   \<and> trace (setTimeScale v that) = trace that
   \<and> setTimeScale v (setTimeScale v that) = setTimeScale v that"
  by (simp add: setTimeScale_def scaleEventTimes_def calcPriority_def comp_def)

theorem setTimeScale_rescales_witness:
  "dbl (Fin 2) \<noteq> dbl (Fin 1)
   \<and> map priority (queue (setTimeScale (Fin 2)
       \<lparr>queue = [\<lparr>ident = 7, type = Some ''repeat'', time = Some (Fin 0), freq = Some (Fin 2),
          endTime = Some PInf, callback = Some 0, scheduledAt = Some (Fin 0),
          interval = Some (Fin (1 / 2)), priority = Some (Fin (1 / 2))\<rparr>],
       timeScale = Fin 1, clock_time = Fin 0, trace = [(7, Fin 0)]\<rparr>))
     = [Some (js_add (Fin 0) (js_mul (Fin 0) (Fin 2)))]
   \<and> setTimeScale (Fin 1)
       \<lparr>queue = [\<lparr>ident = 7, type = Some ''repeat'', time = Some (Fin 0), freq = Some (Fin 2),
          endTime = Some PInf, callback = Some 0, scheduledAt = Some (Fin 0),
          interval = Some (Fin (1 / 2)), priority = Some (Fin (1 / 2))\<rparr>],
       timeScale = Fin 1, clock_time = Fin 0, trace = [(7, Fin 0)]\<rparr>
     = \<lparr>queue = [\<lparr>ident = 7, type = Some ''repeat'', time = Some (Fin 0), freq = Some (Fin 2),
          endTime = Some PInf, callback = Some 0, scheduledAt = Some (Fin 0),
          interval = Some (Fin (1 / 2)), priority = Some (Fin (1 / 2))\<rparr>],
       timeScale = Fin 1, clock_time = Fin 0, trace = [(7, Fin 0)]\<rparr>"
proof -
  have d: "dbl (Fin 2) \<noteq> dbl (Fin 1)" by code_simp
  from setTimeScale_rescales [of "Fin 2" "\<lparr>queue = [\<lparr>ident = 7, type = Some ''repeat'', time = Some (Fin 0), freq = Some (Fin 2),
          endTime = Some PInf, callback = Some 0, scheduledAt = Some (Fin 0),
          interval = Some (Fin (1 / 2)), priority = Some (Fin (1 / 2))\<rparr>],
       timeScale = Fin 1, clock_time = Fin 0, trace = [(7, Fin 0)]\<rparr>"]
    setTimeScale_rescales [of "Fin 1" "\<lparr>queue = [\<lparr>ident = 7, type = Some ''repeat'', time = Some (Fin 0), freq = Some (Fin 2),
          endTime = Some PInf, callback = Some 0, scheduledAt = Some (Fin 0),
          interval = Some (Fin (1 / 2)), priority = Some (Fin (1 / 2))\<rparr>],
       timeScale = Fin 1, clock_time = Fin 0, trace = [(7, Fin 0)]\<rparr>"] d
  show ?thesis by (simp add: num_def)
qed

text \<open>
  C5 fails as stated: a repeat whose \<open>freq\<close> is zero or negative passes validation and
  is queued (here \<open>freq = 0\<close>, giving the interval \<open>Infinity\<close>, and \<open>freq = -1\<close>).
\<close>

theorem nonpositive_freq_accepted:
  "(case repeat (\<lambda>c now e s. s) 7 (Some (Fin 0)) (Some 0) (Some (Fin 1)) None
           \<lparr>queue = [], timeScale = Fin 1, clock_time = Fin 0, trace = []\<rparr> of
      Inl _ \<Rightarrow> False
    | Inr (e, s) \<Rightarrow> map ident (queue s) = [7] \<and> interval e = Some PInf)
   \<and> (case repeat (\<lambda>c now e s. s) 8 (Some (Fin (- 1))) (Some 0) (Some (Fin 1)) None
           \<lparr>queue = [], timeScale = Fin 1, clock_time = Fin 0, trace = []\<rparr> of
      Inl _ \<Rightarrow> False
    | Inr (e, s) \<Rightarrow> map ident (queue s) = [8] \<and> interval e = Some (Fin (- 1)))"
  by code_simp

text \<open>
  C5, amended. Scheduling a repeat whose \<open>freq\<close> is not a number (absent, or of another
  type) throws: the call returns no event, the scheduler is left as it was (nothing is
  queued, no callback runs). The error is the missing-callback one when the callback
  is not a function either, the missing-frequency one otherwise.
\<close>

theorem repeat_without_freq_rejected:
  assumes "type eventSpec = Some ''repeat''" and "freq eventSpec = None"
  shows "scheduleEvent env eventSpec that =
           Inl (if callback eventSpec = None then NoCallback else NoFreq, that)"
  using assms
  by (simp add: scheduleEvent_def falsy_def expandRepeatingEventSpec_def
      validateEventSpec_def Let_def)

theorem repeat_without_freq_rejected_witness:
  "scheduleEvent (\<lambda>c now e s. s)
     \<lparr>ident = 7, type = Some ''repeat'', time = Some (Fin 1), freq = None, endTime = None,
      callback = Some 0, scheduledAt = None, interval = None, priority = None\<rparr>
     \<lparr>queue = [], timeScale = Fin 1, clock_time = Fin 0, trace = []\<rparr>
   = Inl (NoFreq, \<lparr>queue = [], timeScale = Fin 1, clock_time = Fin 0, trace = []\<rparr>)"
  using repeat_without_freq_rejected [of
     "\<lparr>ident = 7, type = Some ''repeat'', time = Some (Fin 1), freq = None, endTime = None,
      callback = Some 0, scheduledAt = None, interval = None, priority = None\<rparr>"
     "\<lambda>c now e s. s"
     "\<lparr>queue = [], timeScale = Fin 1, clock_time = Fin 0, trace = []\<rparr>"]
  by simp

text \<open>
  C2 fails as stated: a repeat that is already due when it is scheduled (here \<open>time = 0\<close>)
  has its callback invoked inside the call and is then pushed to the queue all the same,
  re-armed for its next occurrence.
\<close>

theorem due_repeat_is_queued:
  "(case repeat (\<lambda>c now e s. s) 7 (Some (Fin 2)) (Some 0) (Some (Fin 0)) None
           \<lparr>queue = [], timeScale = Fin 1, clock_time = Fin 0, trace = []\<rparr> of
      Inl _ \<Rightarrow> False
    | Inr (e, s) \<Rightarrow> trace s = [(7, Fin 0)] \<and> map ident (queue s) = [7]
                    \<and> map priority (queue s) = [Some (Fin (1 / 2))])"
  by code_simp

text \<open>
  C2, amended. For a valid event (a callback; a time, or none on a repeat; a numeric
  \<open>freq\<close> on a repeat) and callbacks that do not call back into the scheduler:
  the initial due time is \<open>p = now + time * timeScale\<close>, where \<open>now\<close> is the clock time
  at the call, which is also the \<open>scheduledAt\<close> given to an event that brings none.
  If \<open>p <= now\<close> the callback is invoked once inside the call, and the event is pushed
  only when it is a repeat whose end lies after \<open>now\<close>, with the priority
  \<open>now + interval * timeScale\<close>. Otherwise no callback runs and the event is pushed with
  priority \<open>p\<close>. The call returns the event, as the same object.
\<close>

theorem scheduleEvent_due_or_queued:
  assumes "quiet env"
    and "callback eventSpec = Some c"
    and "type eventSpec = Some ''repeat'' \<longrightarrow> freq eventSpec \<noteq> None"
    and "type eventSpec \<noteq> Some ''repeat'' \<longrightarrow> time eventSpec \<noteq> None"
    and "now = clock_time that" and "ts = timeScale that"
    and "t = (if type eventSpec = Some ''repeat'' \<and> time eventSpec = None then Fin 0
              else num (time eventSpec))"
    and "p = js_add now (js_mul t ts)"
  shows "case scheduleEvent env eventSpec that of
           Inl _ \<Rightarrow> False
         | Inr (e, that') \<Rightarrow>
             ident e = ident eventSpec \<and> time e = Some t
             \<and> scheduledAt e = (if scheduledAt eventSpec = None then Some now
                                else scheduledAt eventSpec)
             \<and> (if js_le p now
                then trace that' = trace that @ [(ident eventSpec, now)]
                     \<and> (if rearms now e
                         then queue that' = queue that @ [e]
                              \<and> priority e = Some (js_add now (js_mul (num (interval e)) ts))
                         else queue that' = queue that \<and> priority e = Some p)
                else trace that' = trace that \<and> queue that' = queue that @ [e]
                     \<and> priority e = Some p)"
proof (cases "type eventSpec = Some ''repeat''")
  case True
  with assms show ?thesis
    by (cases "time eventSpec"; cases "scheduledAt eventSpec")
       (auto simp: scheduleEvent_def falsy_def expandRepeatingEventSpec_def
        validateEventSpec_def calcPriority_def num_def push_def Let_def
        quiet_evaluate rearms_def rearm_def split: option.splits)
next
  case False
  with assms show ?thesis
    by (cases "time eventSpec"; cases "scheduledAt eventSpec")
       (auto simp: scheduleEvent_def falsy_def
        validateEventSpec_def calcPriority_def num_def push_def Let_def
        quiet_evaluate rearms_def rearm_def split: option.splits)
qed

theorem scheduleEvent_due_or_queued_witness:
  "quiet (\<lambda>c now e s. s) \<and>
   (case scheduleEvent (\<lambda>c now e s. s)
      \<lparr>ident = 7, type = None, time = Some (Fin 2), freq = None, endTime = None,
       callback = Some 0, scheduledAt = None, interval = None, priority = None\<rparr>
      \<lparr>queue = [], timeScale = Fin 3, clock_time = Fin 1, trace = []\<rparr> of
      Inl _ \<Rightarrow> False
    | Inr (e, that') \<Rightarrow>
        ident e = 7 \<and> time e = Some (Fin 2) \<and> scheduledAt e = Some (Fin 1)
        \<and> trace that' = [] \<and> queue that' = [e] \<and> priority e = Some (Fin 7)) \<and>
   (case scheduleEvent (\<lambda>c now e s. s)
      \<lparr>ident = 8, type = Some ''repeat'', time = None, freq = Some (Fin 2),
       endTime = None, callback = Some 0, scheduledAt = None, interval = None,
       priority = None\<rparr>
      \<lparr>queue = [], timeScale = Fin 3, clock_time = Fin 1, trace = []\<rparr> of
      Inl _ \<Rightarrow> False
    | Inr (e, that') \<Rightarrow>
        ident e = 8 \<and> time e = Some (Fin 0) \<and> scheduledAt e = Some (Fin 1)
        \<and> trace that' = [(8, Fin 1)]
        \<and> (if rearms (Fin 1) e
            then queue that' = [e] \<and>
                 priority e = Some (js_add (Fin 1) (js_mul (num (interval e)) (Fin 3)))
            else queue that' = [] \<and> priority e = Some (Fin 1)))"
proof -
  have q: "quiet (\<lambda>c now e s. s)" by (simp add: quiet_def)
  have a: "js_add (Fin 1) (js_mul (Fin 2) (Fin 3)) = Fin 7"
    "js_add (Fin 1) (js_mul (Fin 0) (Fin 3)) = Fin 1"
    "\<not> js_le (Fin 7) (Fin 1)" "js_le (Fin 1) (Fin 1)"
    by code_simp+
  from scheduleEvent_due_or_queued [OF q, where c = 0 and now = "Fin 1" and ts = "Fin 3"
     and t = "Fin 2" and p = "Fin 7" and that = "\<lparr>queue = [], timeScale = Fin 3, clock_time = Fin 1, trace = []\<rparr>"
     and eventSpec = "\<lparr>ident = 7, type = None, time = Some (Fin 2), freq = None, endTime = None,
       callback = Some 0, scheduledAt = None, interval = None, priority = None\<rparr>"]
   scheduleEvent_due_or_queued [OF q, where c = 0 and now = "Fin 1" and ts = "Fin 3"
     and t = "Fin 0" and p = "Fin 1" and that = "\<lparr>queue = [], timeScale = Fin 3, clock_time = Fin 1, trace = []\<rparr>"
     and eventSpec = "\<lparr>ident = 8, type = Some ''repeat'', time = None, freq = Some (Fin 2),
       endTime = None, callback = Some 0, scheduledAt = None, interval = None,
       priority = None\<rparr>"] q a
  show ?thesis by (simp add: num_def split: sum.splits prod.splits)
qed

section \<open>Following one event through a tick\<close>

lemma firings_step:
  "trace st1 = trace st @ [(j, now)] \<Longrightarrow>
   firings i st1 = firings i st @ (if j = i then [now] else [])"
  by (simp add: firings_def)

lemma mine_Nil: "mine i [] = []"
  by (simp add: mine_def)

lemma numeric_remove1: "numeric q \<Longrightarrow> numeric (remove1 x q)"
  by (auto simp: numeric_def list_all_iff dest: notin_set_remove1)

lemma numeric_rearm:
  assumes "numeric q" "x \<in> set q" "rearms now x" "is_fin now" "is_fin ts"
  shows "numeric [rearm now ts x]"
proof -
  from assms(1,2,3) have "is_fin (num (interval x))"
    by (auto simp: numeric_def list_all_iff rearms_def)
  from calc_not_NaN[OF assms(4) this assms(5)] assms(1,2,3) show ?thesis
    by (auto simp: numeric_def rearm_def rearms_def num_def list_all_iff)
qed

lemma numeric_append: "numeric (q @ r) \<longleftrightarrow> numeric q \<and> numeric r"
  by (simp add: numeric_def)

lemma quiet_step_numeric:
  assumes "quiet env" "peek (queue st) = Some nx"
    "evaluateScoreEvent env nx now ts (st\<lparr>queue := pop (queue st)\<rparr>) = Inr (ev, st1)"
    "numeric (queue st)" "is_fin now" "is_fin ts"
  shows "numeric (queue st1)"
  using quiet_step(4)[OF assms(1,2,3)] numeric_remove1[OF assms(4)]
    numeric_rearm[OF assms(4) peek_mem[OF assms(2)] _ assms(5,6)]
  by (auto simp: numeric_append numeric_def)

lemma quiet_step_mine_other:
  assumes "quiet env" "peek (queue st) = Some nx"
    "evaluateScoreEvent env nx now ts (st\<lparr>queue := pop (queue st)\<rparr>) = Inr (ev, st1)"
    "ident nx \<noteq> i"
  shows "mine i (queue st1) = mine i (queue st)" and "firings i st1 = firings i st"
  using quiet_step(4)[OF assms(1,2,3)] firings_step[OF quiet_step(1)[OF assms(1,2,3)], of i] assms(4)
  by (auto simp: mine_append mine_single mine_Nil mine_remove1_other rearm_def)

lemma quiet_step_mine_self:
  assumes "quiet env" "peek (queue st) = Some x"
    "evaluateScoreEvent env x now ts (st\<lparr>queue := pop (queue st)\<rparr>) = Inr (ev, st1)"
    "mine i (queue st) = [x]"
  shows "mine i (queue st1) = (if rearms now x then [rearm now ts x] else [])"
    and "firings i st1 = firings i st @ [now]"
  using quiet_step(4)[OF assms(1,2,3)] firings_step[OF quiet_step(1)[OF assms(1,2,3)], of i]
    mine_in[OF assms(4)] mine_remove1_self[OF assms(4)]
  by (auto simp: mine_append mine_single mine_Nil rearm_def)

lemma tick_absent:
  assumes q: "quiet env" and run: "tick env now ts that = Some r"
    and "mine i (queue that) = []"
  shows "case r of Inl _ \<Rightarrow> True
         | Inr that' \<Rightarrow> mine i (queue that') = [] \<and> firings i that' = firings i that"
proof -
  have "mine i (queue that) = [] \<longrightarrow>
        (case r of Inl _ \<Rightarrow> True
         | Inr that' \<Rightarrow> mine i (queue that') = [] \<and> firings i that' = firings i that)"
    using run
  proof (induction rule: tick_induct)
    case (step that nx ev that1 r)
    show ?case
    proof
      assume a: "mine i (queue that) = []"
      from peek_mem[OF step(1)] a have "ident nx \<noteq> i" by (auto simp: mine_empty)
      from quiet_step_mine_other[OF q step(1,3) this] a step.IH
      show "case r of Inl _ \<Rightarrow> True
         | Inr that' \<Rightarrow> mine i (queue that') = [] \<and> firings i that' = firings i that"
        by (auto split: sum.splits)
    qed
  qed simp_all
  with assms(3) show ?thesis by simp
qed

lemma tick_not_due:
  assumes q: "quiet env" and run: "tick env now ts that = Some r"
    and "mine i (queue that) = [x]" and nd: "\<not> js_le (num (priority x)) now"
  shows "case r of Inl _ \<Rightarrow> True
         | Inr that' \<Rightarrow> mine i (queue that') = [x] \<and> firings i that' = firings i that"
proof -
  have "mine i (queue that) = [x] \<longrightarrow>
        (case r of Inl _ \<Rightarrow> True
         | Inr that' \<Rightarrow> mine i (queue that') = [x] \<and> firings i that' = firings i that)"
    using run
  proof (induction rule: tick_induct)
    case (step that nx ev that1 r)
    show ?case
    proof
      assume a: "mine i (queue that) = [x]"
      have "ident nx \<noteq> i"
      proof
        assume "ident nx = i"
        from mine_mem[OF a peek_mem[OF step(1)] this] step(2) nd show False by simp
      qed
      from quiet_step_mine_other[OF q step(1,3) this] a step.IH
      show "case r of Inl _ \<Rightarrow> True
         | Inr that' \<Rightarrow> mine i (queue that') = [x] \<and> firings i that' = firings i that"
        by (auto split: sum.splits)
    qed
  qed simp_all
  with assms(3) show ?thesis by simp
qed

lemma tick_due:
  assumes q: "quiet env" and fin: "is_fin now" "is_fin ts"
    and run: "tick env now ts that = Some r"
    and "numeric (queue that)" and "mine i (queue that) = [x]"
    and due: "js_le (num (priority x)) now"
    and later: "rearms now x \<longrightarrow> \<not> js_le (num (priority (rearm now ts x))) now"
  shows "case r of Inl _ \<Rightarrow> True
         | Inr that' \<Rightarrow> firings i that' = firings i that @ [now] \<and>
             mine i (queue that') = (if rearms now x then [rearm now ts x] else [])"
proof -
  have "numeric (queue that) \<and> mine i (queue that) = [x] \<longrightarrow>
        (case r of Inl _ \<Rightarrow> True
         | Inr that' \<Rightarrow> firings i that' = firings i that @ [now] \<and>
             mine i (queue that') = (if rearms now x then [rearm now ts x] else []))"
    using run
  proof (induction rule: tick_induct)
    case (stop that)
    show ?case
    proof
      assume a: "numeric (queue that) \<and> mine i (queue that) = [x]"
      then have "x \<in> set (queue that)" using mine_in by blast
      from numeric_drained_not_due[OF _ stop this] a due
      show "case Inr that of Inl _ \<Rightarrow> True
         | Inr that' \<Rightarrow> firings i that' = firings i that @ [now] \<and>
             mine i (queue that') = (if rearms now x then [rearm now ts x] else [])"
        by simp
    qed
  next
    case (error that nx e)
    then show ?case by simp
  next
    case (step that nx ev that1 r)
    show ?case
    proof
      assume a: "numeric (queue that) \<and> mine i (queue that) = [x]"
      then have num: "numeric (queue that)" and m: "mine i (queue that) = [x]" by simp_all
      show "case r of Inl _ \<Rightarrow> True
         | Inr that' \<Rightarrow> firings i that' = firings i that @ [now] \<and>
             mine i (queue that') = (if rearms now x then [rearm now ts x] else [])"
      proof (cases "ident nx = i")
        case False
        from quiet_step_mine_other[OF q step(1,3) False] m
          quiet_step_numeric[OF q step(1,3) num fin] step.IH
        show ?thesis by (auto split: sum.splits)
      next
        case True
        from mine_mem[OF m peek_mem[OF step(1)] True] have nx: "nx = x" .
        note self = quiet_step_mine_self[OF q step(1)[unfolded nx] step(3)[unfolded nx] m]
        show ?thesis
        proof (cases "rearms now x")
          case True
          with self(1) later have "mine i (queue that1) = [rearm now ts x]"
            "\<not> js_le (num (priority (rearm now ts x))) now" by simp_all
          from tick_not_due[OF q step(4) this] self(2) True show ?thesis
            by (auto split: sum.splits)
        next
          case False
          with self(1) have "mine i (queue that1) = []" by simp
          from tick_absent[OF q step(4) this] self(2) False show ?thesis
            by (auto split: sum.splits)
        qed
      qed
    qed
  qed
  with assms(5,6) show ?thesis by simp
qed

lemma tick_keeps:
  assumes q: "quiet env" and fin: "is_fin now" "is_fin ts"
    and run: "tick env now ts that = Some r"
    and "numeric (queue that)"
  shows "case r of Inl _ \<Rightarrow> True
         | Inr that' \<Rightarrow> numeric (queue that') \<and> timeScale that' = timeScale that"
proof -
  have "numeric (queue that) \<longrightarrow>
        (case r of Inl _ \<Rightarrow> True
         | Inr that' \<Rightarrow> numeric (queue that') \<and> timeScale that' = timeScale that)"
    using run
  proof (induction rule: tick_induct)
    case (step that nx ev that1 r)
    from quiet_step_numeric[OF q step(1,3) _ fin] quiet_step(2)[OF q step(1,3)] step.IH
    show ?case by (auto split: sum.splits)
  qed simp_all
  with assms(5) show ?thesis by simp
qed

section \<open>Cancellation\<close>

lemma quiet_leaves: "quiet env \<Longrightarrow> leaves i env"
  by (simp add: quiet_def leaves_def)

lemma mine_pop_absent: "mine i q = [] \<Longrightarrow> mine i (pop q) = []"
proof -
  assume "mine i q = []"
  moreover have "set (pop q) \<subseteq> set q"
  proof (cases "peek q")
    case None
    then show ?thesis by (simp add: pop_def)
  next
    case (Some m)
    then show ?thesis using set_remove1_subset[of m q] by (simp add: pop_def)
  qed
  ultimately show ?thesis by (auto simp: mine_empty)
qed

lemma step_leaves:
  assumes "leaves i env"
    and "evaluateScoreEvent env nx now ts (st\<lparr>queue := pop (queue st)\<rparr>) = Inr (ev, st1)"
    and "ident nx \<noteq> i" and "mine i (queue st) = []"
  shows "mine i (queue st1) = []" and "firings i st1 = firings i st"
proof -
  from assms(2) obtain c where c: "callback nx = Some c"
    by (auto simp: evaluateScoreEvent_def invoke_def split: option.splits)
  let ?s0 = "st\<lparr>queue := pop (queue st), trace := trace st @ [(ident nx, now)]\<rparr>"
  let ?s1 = "env c now nx ?s0"
  from assms(1) have f: "firings i ?s1 = firings i ?s0"
    and m: "mine i (queue ?s0) = [] \<Longrightarrow> mine i (queue ?s1) = []"
    by (simp_all add: leaves_def)
  have f0: "firings i ?s0 = firings i st" using assms(3) by (simp add: firings_def)
  have m1: "mine i (queue ?s1) = []" using m mine_pop_absent[OF assms(4)] by simp
  from assms(2) c have "st1 = ?s1 \<or> st1 = ?s1\<lparr>queue := queue ?s1 @ [rearm now ts nx]\<rparr>"
    by (auto simp: evaluateScoreEvent_def invoke_def push_def rearm_def calcPriority_def Let_def
        split: if_splits)
  then show "mine i (queue st1) = []" and "firings i st1 = firings i st"
    using f f0 m1 assms(3)
    by (auto simp: mine_append mine_single mine_Nil rearm_def firings_def)
qed

lemma tick_leaves:
  assumes l: "leaves i env" and run: "tick env now ts that = Some r"
    and "mine i (queue that) = []"
  shows "case r of Inl _ \<Rightarrow> True
         | Inr that' \<Rightarrow> mine i (queue that') = [] \<and> firings i that' = firings i that"
proof -
  have "mine i (queue that) = [] \<longrightarrow>
        (case r of Inl _ \<Rightarrow> True
         | Inr that' \<Rightarrow> mine i (queue that') = [] \<and> firings i that' = firings i that)"
    using run
  proof (induction rule: tick_induct)
    case (step that nx ev that1 r)
    show ?case
    proof
      assume a: "mine i (queue that) = []"
      from peek_mem[OF step(1)] a have "ident nx \<noteq> i" by (auto simp: mine_empty)
      from step_leaves[OF l step(3) this a] step.IH
      show "case r of Inl _ \<Rightarrow> True
         | Inr that' \<Rightarrow> mine i (queue that') = [] \<and> firings i that' = firings i that"
        by (auto split: sum.splits)
    qed
  qed simp_all
  with assms(3) show ?thesis by simp
qed

lemma ticks_leaves:
  assumes "leaves i env"
  shows "ticks env nows that = Some (Inr that') \<Longrightarrow> mine i (queue that) = [] \<Longrightarrow>
         mine i (queue that') = [] \<and> firings i that' = firings i that"
proof (induction nows arbitrary: that)
  case Nil
  then show ?case by simp
next
  case (Cons now rest)
  from Cons.prems(1) obtain that1 where t1: "tick_invoker env now that = Some (Inr that1)"
    and rest: "ticks env rest that1 = Some (Inr that')"
    by (auto split: option.splits sum.splits)
  from tick_leaves[OF assms t1[unfolded tick_invoker_def] Cons.prems(2)]
  have "mine i (queue that1) = []" "firings i that1 = firings i that" by simp_all
  with Cons.IH[OF rest] show ?case by simp
qed

lemma remove_absent: "ident e \<notin> ident ` set q \<Longrightarrow> remove e q = q"
  by (induction q) auto

lemma remove_distinct: "distinct (map ident q) \<Longrightarrow> mine (ident e) (remove e q) = []"
proof (induction q)
  case Nil
  then show ?case by (simp add: mine_Nil)
next
  case (Cons x q)
  show ?case
  proof (cases "ident x = ident e")
    case True
    with Cons.prems have "ident e \<notin> ident ` set q" by simp
    with True show ?thesis by (simp add: mine_empty)
  next
    case False
    with Cons show ?thesis by (simp add: mine_def)
  qed
qed

text \<open>
  C8. Once \<open>clear(spec)\<close> has been called on a scheduler whose queue holds each object at
  most once, no later tick invokes the callback of \<open>spec\<close>, as long as no callback
  schedules \<open>spec\<close> anew. And \<open>clear\<close> of an event that is not in the queue leaves the
  whole scheduler as it is (it cannot fail: it returns a state, never an error).
\<close>

theorem clear_cancels:
  "(leaves (ident eventSpec) env \<and> distinct (map ident (queue that)) \<and>
    ticks env nows (clear eventSpec that) = Some (Inr that')
      \<longrightarrow> firings (ident eventSpec) that' = firings (ident eventSpec) that)
   \<and> (ident eventSpec \<notin> ident ` set (queue that) \<longrightarrow> clear eventSpec that = that)"
proof (intro conjI impI)
  assume a: "leaves (ident eventSpec) env \<and> distinct (map ident (queue that)) \<and>
    ticks env nows (clear eventSpec that) = Some (Inr that')"
  then have "mine (ident eventSpec) (queue (clear eventSpec that)) = []"
    by (simp add: clear_def remove_distinct)
  from ticks_leaves[of "ident eventSpec" env nows "clear eventSpec that" that', OF _ _ this] a
  have "firings (ident eventSpec) that' = firings (ident eventSpec) (clear eventSpec that)"
    by simp
  then show "firings (ident eventSpec) that' = firings (ident eventSpec) that"
    by (simp add: clear_def firings_def)
next
  assume "ident eventSpec \<notin> ident ` set (queue that)"
  then show "clear eventSpec that = that"
    by (simp add: clear_def remove_absent)
qed


text \<open>
  The witness: of two queued events the one due at 2 is cleared; the ticks 1, 2, 3 invoke
  the other one only. Clearing it once more, when it is no longer queued, changes nothing.
\<close>

theorem clear_cancels_witness:
  "leaves 7 (\<lambda>c now e s. s)
   \<and> ticks (\<lambda>c now e s. s) [Fin 1, Fin 2, Fin 3]
      (clear \<lparr>ident = 7, type = Some ''once'', time = Some (Fin 2), freq = None,
               endTime = None, callback = Some 0, scheduledAt = Some (Fin 0),
               interval = None, priority = Some (Fin 2)\<rparr>
        \<lparr>queue = [\<lparr>ident = 7, type = Some ''once'', time = Some (Fin 2), freq = None,
               endTime = None, callback = Some 0, scheduledAt = Some (Fin 0),
               interval = None, priority = Some (Fin 2)\<rparr>,
                  \<lparr>ident = 8, type = Some ''once'', time = Some (Fin 1), freq = None,
                    endTime = None, callback = Some 1, scheduledAt = Some (Fin 0),
                    interval = None, priority = Some (Fin 1)\<rparr>],
         timeScale = Fin 1, clock_time = Fin 0, trace = []\<rparr>)
     = Some (Inr \<lparr>queue = [], timeScale = Fin 1, clock_time = Fin 0, trace = [(8, Fin 1)]\<rparr>)
   \<and> firings 7 \<lparr>queue = [], timeScale = Fin 1, clock_time = Fin 0, trace = [(8, Fin 1)]\<rparr> =
     firings 7
        \<lparr>queue = [\<lparr>ident = 7, type = Some ''once'', time = Some (Fin 2), freq = None,
               endTime = None, callback = Some 0, scheduledAt = Some (Fin 0),
               interval = None, priority = Some (Fin 2)\<rparr>,
                  \<lparr>ident = 8, type = Some ''once'', time = Some (Fin 1), freq = None,
                    endTime = None, callback = Some 1, scheduledAt = Some (Fin 0),
                    interval = None, priority = Some (Fin 1)\<rparr>],
         timeScale = Fin 1, clock_time = Fin 0, trace = []\<rparr>
   \<and> clear \<lparr>ident = 7, type = Some ''once'', time = Some (Fin 2), freq = None,
               endTime = None, callback = Some 0, scheduledAt = Some (Fin 0),
               interval = None, priority = Some (Fin 2)\<rparr>
        \<lparr>queue = [], timeScale = Fin 1, clock_time = Fin 0, trace = [(8, Fin 1)]\<rparr>
     = \<lparr>queue = [], timeScale = Fin 1, clock_time = Fin 0, trace = [(8, Fin 1)]\<rparr>"
proof -
  have l: "leaves 7 (\<lambda>c now e s. s)" by (simp add: leaves_def)
  have t: "ticks (\<lambda>c now e s. s) [Fin 1, Fin 2, Fin 3]
      (clear \<lparr>ident = 7, type = Some ''once'', time = Some (Fin 2), freq = None,
               endTime = None, callback = Some 0, scheduledAt = Some (Fin 0),
               interval = None, priority = Some (Fin 2)\<rparr>
        \<lparr>queue = [\<lparr>ident = 7, type = Some ''once'', time = Some (Fin 2), freq = None,
               endTime = None, callback = Some 0, scheduledAt = Some (Fin 0),
               interval = None, priority = Some (Fin 2)\<rparr>,
                  \<lparr>ident = 8, type = Some ''once'', time = Some (Fin 1), freq = None,
                    endTime = None, callback = Some 1, scheduledAt = Some (Fin 0),
                    interval = None, priority = Some (Fin 1)\<rparr>],
         timeScale = Fin 1, clock_time = Fin 0, trace = []\<rparr>)
     = Some (Inr \<lparr>queue = [], timeScale = Fin 1, clock_time = Fin 0, trace = [(8, Fin 1)]\<rparr>)"
    by code_simp
  from clear_cancels [of
      "\<lparr>ident = 7, type = Some ''once'', time = Some (Fin 2), freq = None,
               endTime = None, callback = Some 0, scheduledAt = Some (Fin 0),
               interval = None, priority = Some (Fin 2)\<rparr>"
      "\<lambda>c now e s. s"
      "\<lparr>queue = [\<lparr>ident = 7, type = Some ''once'', time = Some (Fin 2), freq = None,
               endTime = None, callback = Some 0, scheduledAt = Some (Fin 0),
               interval = None, priority = Some (Fin 2)\<rparr>,
                  \<lparr>ident = 8, type = Some ''once'', time = Some (Fin 1), freq = None,
                    endTime = None, callback = Some 1, scheduledAt = Some (Fin 0),
                    interval = None, priority = Some (Fin 1)\<rparr>],
         timeScale = Fin 1, clock_time = Fin 0, trace = []\<rparr>"
      "[Fin 1, Fin 2, Fin 3]"
      "\<lparr>queue = [], timeScale = Fin 1, clock_time = Fin 0, trace = [(8, Fin 1)]\<rparr>"]
    clear_cancels [of
      "\<lparr>ident = 7, type = Some ''once'', time = Some (Fin 2), freq = None,
               endTime = None, callback = Some 0, scheduledAt = Some (Fin 0),
               interval = None, priority = Some (Fin 2)\<rparr>"
      "\<lambda>c now e s. s"
      "\<lparr>queue = [], timeScale = Fin 1, clock_time = Fin 0, trace = [(8, Fin 1)]\<rparr>"
      "[]"
      "\<lparr>queue = [], timeScale = Fin 1, clock_time = Fin 0, trace = [(8, Fin 1)]\<rparr>"] l t
  show ?thesis by simp
qed

section \<open>Termination of the drain loop\<close>

text \<open>
  A set of queues that the loop never leaves: in each of them the head is due and has a
  callback, and one turn of the loop leads to another of them.
\<close>

lemma tick_diverges:
  assumes q: "quiet env" and inv: "I (queue that)"
    and turn: "\<And>q. I q \<Longrightarrow> \<exists>nx c. peek q = Some nx \<and> js_le (num (priority nx)) now \<and>
                 callback nx = Some c \<and>
                 I (remove1 nx q @ (if rearms now nx then [rearm now ts nx] else []))"
  shows "tick env now ts that = None"
proof (cases "tick env now ts that")
  case None
  then show ?thesis .
next
  case (Some r)
  have "\<not> I (queue that)"
    using Some
  proof (induction rule: tick_induct)
    case (stop that)
    show ?case
    proof
      assume "I (queue that)"
      from turn[OF this] stop show False by (auto simp: drained_def)
    qed
  next
    case (error that nx e)
    show ?case
    proof
      assume "I (queue that)"
      from turn[OF this] error(1) obtain c where "callback nx = Some c" by auto
      with error(3) show False by (auto simp: quiet_evaluate[OF q] split: if_splits)
    qed
  next
    case (step that nx ev that1 r)
    show ?case
    proof
      assume "I (queue that)"
      from turn[OF this] step(1)
      have "I (remove1 nx (queue that) @ (if rearms now nx then [rearm now ts nx] else []))"
        by auto
      with quiet_step(4)[OF q step(1,3)] step.IH show False by simp
    qed
  qed
  with inv show ?thesis by simp
qed

text \<open>
  C9 fails as stated: a repeat of negative frequency (which validation lets through) is
  re-armed at a time before \<open>now\<close> each time it fires, so the next \<open>tick\<close> never
  returns.
\<close>

theorem tick_never_returns:
  "(case repeat (\<lambda>c now e s. s) 7 (Some (Fin (- 1))) (Some 0) (Some (Fin 0)) None
           \<lparr>queue = [], timeScale = Fin 1, clock_time = Fin 0, trace = []\<rparr> of
      Inl _ \<Rightarrow> False
    | Inr (e, s) \<Rightarrow> tick_invoker (\<lambda>c now e s. s) (Fin 0) s = None)"
proof -
  let ?x = "\<lparr>ident = 7, type = Some ''repeat'', time = Some (Fin 0), freq = Some (Fin (- 1)),
             endTime = Some PInf, callback = Some 0, scheduledAt = Some (Fin 0),
             interval = Some (Fin (- 1)), priority = Some (Fin (- 1))\<rparr>"
  let ?s = "\<lparr>queue = [?x], timeScale = Fin 1, clock_time = Fin 0, trace = [(7, Fin 0)]\<rparr>"
  have r: "repeat (\<lambda>c now e s. s) 7 (Some (Fin (- 1))) (Some 0) (Some (Fin 0)) None
           \<lparr>queue = [], timeScale = Fin 1, clock_time = Fin 0, trace = []\<rparr> = Inr (?x, ?s)"
    by code_simp
  have q: "quiet (\<lambda>c now e s. s)" by (simp add: quiet_def)
  have t: "peek [?x] = Some ?x" "js_le (num (priority ?x)) (Fin 0)" "rearms (Fin 0) ?x"
    "rearm (Fin 0) (Fin 1) ?x = ?x"
    by code_simp+
  have "tick (\<lambda>c now e s. s) (Fin 0) (Fin 1) ?s = None"
  proof (rule tick_diverges[OF q, where I = "\<lambda>q. q = [?x]"])
    show "queue ?s = [?x]" by simp
  next
    fix q :: priorityQueue
    assume "q = [?x]"
    with t show "\<exists>nx c. peek q = Some nx \<and> js_le (num (priority nx)) (Fin 0) \<and>
                 callback nx = Some c \<and>
                 remove1 nx q @ (if rearms (Fin 0) nx then [rearm (Fin 0) (Fin 1) nx] else [])
                   = [?x]"
      by (intro exI[of _ ?x] exI[of _ 0]) simp
  qed
  with r show ?thesis by (simp add: tick_invoker_def)
qed

lemma length_filter_remove1:
  "x \<in> set q \<Longrightarrow> P x \<Longrightarrow> length (filter P (remove1 x q)) < length (filter P q)"
  by (induction q) auto

lemma rearmed_later_step:
  assumes "rearmed_later now ts q" "nx \<in> set q"
  shows "rearmed_later now ts
           (remove1 nx q @ (if rearms now' nx then [rearm now' ts' nx] else []))"
  using assms
  by (auto simp: rearmed_later_def list_all_iff rearms_def rearm_def dest: notin_set_remove1)

lemma tick_terminates:
  assumes "quiet env" and "rearmed_later now ts (queue that)"
  shows "\<exists>r. tick env now ts that = Some r"
proof -
  show ?thesis
    using assms(2)
  proof (induction "length (filter (\<lambda>x. js_le (num (priority x)) now) (queue that))"
      arbitrary: that rule: less_induct)
    case less
    show ?case
    proof (cases "peek (queue that)")
      case None
      then show ?thesis by (subst tick.simps) simp
    next
      case (Some nx)
      show ?thesis
      proof (cases "js_le (num (priority nx)) now")
        case False
        with Some show ?thesis by (subst tick.simps) simp
      next
        case True
        show ?thesis
        proof (cases "evaluateScoreEvent env nx now ts (that\<lparr>queue := pop (queue that)\<rparr>)")
          case (Inl e)
          with Some True show ?thesis by (subst tick.simps) simp
        next
          case (Inr p)
          obtain ev that1 where p: "p = (ev, that1)" by (cases p)
          note q1 = quiet_step(4)[OF assms(1) Some Inr[unfolded p]]
          have mem: "nx \<in> set (queue that)" by (rule peek_mem[OF Some])
          have later: "rearmed_later now ts (queue that1)"
            unfolding q1 by (rule rearmed_later_step[OF less.prems mem])
          have nd: "rearms now nx \<Longrightarrow> \<not> js_le (num (priority (rearm now ts nx))) now"
            using less.prems mem by (auto simp: rearmed_later_def list_all_iff rearm_def num_def)
          have "length (filter (\<lambda>x. js_le (num (priority x)) now) (queue that1))
                < length (filter (\<lambda>x. js_le (num (priority x)) now) (queue that))"
            unfolding q1 using length_filter_remove1[OF mem, of "\<lambda>x. js_le (num (priority x)) now"] True nd
            by auto
          from less.hyps[OF this later] obtain r where "tick env now ts that1 = Some r" ..
          with Some True Inr p show ?thesis by (subst tick.simps) simp
        qed
      qed
    qed
  qed
qed


lemma tick_normal:
  assumes q: "quiet env" and run: "tick env now ts that = Some r"
    and "callable (queue that)"
  shows "\<exists>that'. r = Inr that' \<and> callable (queue that') \<and> timeScale that' = timeScale that"
proof -
  have "callable (queue that) \<longrightarrow>
        (\<exists>that'. r = Inr that' \<and> callable (queue that') \<and> timeScale that' = timeScale that)"
    using run
  proof (induction rule: tick_induct)
    case (stop that)
    then show ?case by simp
  next
    case (error that nx e)
    show ?case
    proof
      assume "callable (queue that)"
      with peek_mem[OF error(1)] have "callback nx \<noteq> None"
        by (auto simp: callable_def list_all_iff)
      with error(3) show "\<exists>that'. Inl e = Inr that' \<and> callable (queue that') \<and>
                           timeScale that' = timeScale that"
        by (auto simp: quiet_evaluate[OF q] split: if_splits)
    qed
  next
    case (step that nx ev that1 r)
    show ?case
    proof
      assume c: "callable (queue that)"
      with peek_mem[OF step(1)] have "callback nx \<noteq> None"
        by (auto simp: callable_def list_all_iff)
      with c quiet_step(4)[OF q step(1,3)] have "callable (queue that1)"
        by (auto simp: callable_def list_all_iff rearm_def dest: notin_set_remove1)
      with step.IH quiet_step(2)[OF q step(1,3)]
      show "\<exists>that'. r = Inr that' \<and> callable (queue that') \<and> timeScale that' = timeScale that"
        by auto
    qed
  qed
  with assms(3) show ?thesis by simp
qed

text \<open>
  C9, amended. With callbacks that do not call back into the scheduler, \<open>tick(now)\<close>
  returns (normally, or by the exception of a queued event whose callback is not a
  function) whenever every queued repeat that is queued back up at \<open>now\<close> gets a due
  time \<open>now + interval * timeScale\<close>, as the program computes it, that is not
  \<open><= now\<close>.
\<close>

theorem tick_returns:
  assumes "quiet env" and "rearmed_later now (timeScale that) (queue that)"
  shows "\<exists>r. tick_invoker env now that = Some r \<and>
           (callable (queue that) \<longrightarrow> (\<exists>that'. r = Inr that'))"
proof -
  from tick_terminates[OF assms] obtain r where r: "tick_invoker env now that = Some r"
    unfolding tick_invoker_def ..
  from tick_normal[OF assms(1) r[unfolded tick_invoker_def]] r show ?thesis by auto
qed

theorem tick_returns_witness:
  "quiet (\<lambda>c now e s. s)
   \<and> rearmed_later (Fin 1) (Fin 1)
        [\<lparr>ident = 7, type = Some ''repeat'', time = Some (Fin 0), freq = Some (Fin 2),
          endTime = Some (Fin 5), callback = Some 0, scheduledAt = Some (Fin 0),
          interval = Some (Fin (1 / 2)), priority = Some (Fin (1 / 2))\<rparr>]
   \<and> callable
        [\<lparr>ident = 7, type = Some ''repeat'', time = Some (Fin 0), freq = Some (Fin 2),
          endTime = Some (Fin 5), callback = Some 0, scheduledAt = Some (Fin 0),
          interval = Some (Fin (1 / 2)), priority = Some (Fin (1 / 2))\<rparr>]
   \<and> (\<exists>that'. tick_invoker (\<lambda>c now e s. s) (Fin 1)
        \<lparr>queue = [\<lparr>ident = 7, type = Some ''repeat'', time = Some (Fin 0), freq = Some (Fin 2),
          endTime = Some (Fin 5), callback = Some 0, scheduledAt = Some (Fin 0),
          interval = Some (Fin (1 / 2)), priority = Some (Fin (1 / 2))\<rparr>],
         timeScale = Fin 1, clock_time = Fin 1, trace = []\<rparr> = Some (Inr that'))"
proof -
  have q: "quiet (\<lambda>c now e s. s)" by (simp add: quiet_def)
  have l: "rearmed_later (Fin 1) (Fin 1)
        [\<lparr>ident = 7, type = Some ''repeat'', time = Some (Fin 0), freq = Some (Fin 2),
          endTime = Some (Fin 5), callback = Some 0, scheduledAt = Some (Fin 0),
          interval = Some (Fin (1 / 2)), priority = Some (Fin (1 / 2))\<rparr>]"
    by code_simp
  have c: "callable
        [\<lparr>ident = 7, type = Some ''repeat'', time = Some (Fin 0), freq = Some (Fin 2),
          endTime = Some (Fin 5), callback = Some 0, scheduledAt = Some (Fin 0),
          interval = Some (Fin (1 / 2)), priority = Some (Fin (1 / 2))\<rparr>]"
    by code_simp
  from tick_returns [of "\<lambda>c now e s. s" "Fin 1"
        "\<lparr>queue = [\<lparr>ident = 7, type = Some ''repeat'', time = Some (Fin 0), freq = Some (Fin 2),
          endTime = Some (Fin 5), callback = Some 0, scheduledAt = Some (Fin 0),
          interval = Some (Fin (1 / 2)), priority = Some (Fin (1 / 2))\<rparr>],
         timeScale = Fin 1, clock_time = Fin 1, trace = []\<rparr>"] q l c
  show ?thesis by auto
qed

lemma tick_total_ts:
  assumes "quiet env" and "rearmed_later now ts (queue that)" and "callable (queue that)"
  shows "\<exists>that'. tick env now ts that = Some (Inr that') \<and> callable (queue that') \<and>
           timeScale that' = timeScale that"
proof -
  from tick_terminates[OF assms(1,2)] obtain r where r: "tick env now ts that = Some r" ..
  from tick_normal[OF assms(1) r assms(3)] r show ?thesis by auto
qed

lemma tick_total:
  assumes "quiet env" and "rearmed_later now (timeScale that) (queue that)"
    and "callable (queue that)"
  shows "\<exists>that'. tick_invoker env now that = Some (Inr that') \<and> callable (queue that') \<and>
           timeScale that' = timeScale that"
  unfolding tick_invoker_def using assms by (rule tick_total_ts)

lemma tick_keeps_steady:
  assumes q: "quiet env" and run: "tick env now ts that = Some r"
    and "steady nows ts' (queue that)"
  shows "case r of Inl _ \<Rightarrow> True | Inr that' \<Rightarrow> steady nows ts' (queue that')"
proof -
  have "steady nows ts' (queue that) \<longrightarrow>
        (case r of Inl _ \<Rightarrow> True | Inr that' \<Rightarrow> steady nows ts' (queue that'))"
    using run
  proof (induction rule: tick_induct)
    case (step that nx ev that1 r)
    show ?case
    proof
      assume "steady nows ts' (queue that)"
      with rearmed_later_step[OF _ peek_mem[OF step(1)]] quiet_step(4)[OF q step(1,3)]
      have "steady nows ts' (queue that1)"
        by (simp add: steady_def list_all_iff)
      with step.IH show "case r of Inl _ \<Rightarrow> True | Inr that' \<Rightarrow> steady nows ts' (queue that')"
        by simp
    qed
  qed simp_all
  with assms(3) show ?thesis by simp
qed

lemma ticks_total:
  assumes q: "quiet env"
  shows "callable (queue that) \<Longrightarrow> steady nows (timeScale that) (queue that) \<Longrightarrow>
         \<exists>that'. ticks env nows that = Some (Inr that')"
proof (induction nows arbitrary: that)
  case Nil
  then show ?case by simp
next
  case (Cons now rest)
  from Cons.prems(2) have l: "rearmed_later now (timeScale that) (queue that)"
    and s: "steady rest (timeScale that) (queue that)"
    by (simp_all add: steady_def)
  from tick_total[OF q l Cons.prems(1)] obtain that1 where
    t1: "tick_invoker env now that = Some (Inr that1)" and c1: "callable (queue that1)"
    and ts: "timeScale that1 = timeScale that" by auto
  from tick_keeps_steady[OF q t1[unfolded tick_invoker_def] s]
  have "steady rest (timeScale that1) (queue that1)" by (simp add: ts)
  from Cons.IH[OF c1 this] t1 show ?case by simp
qed

section \<open>One-time events\<close>

lemma ticks_once:
  assumes q: "quiet env" and once: "type x \<noteq> Some ''repeat''"
  shows "ticks env nows that = Some (Inr that') \<Longrightarrow> is_fin (timeScale that) \<Longrightarrow>
         list_all is_fin nows \<Longrightarrow> numeric (queue that) \<Longrightarrow> mine i (queue that) = [x] \<Longrightarrow>
         firings i that' = firings i that @
           (case find (\<lambda>n. js_le (num (priority x)) n) nows of None \<Rightarrow> [] | Some n \<Rightarrow> [n])"
proof (induction nows arbitrary: that)
  case Nil
  then show ?case by simp
next
  case (Cons now rest)
  from Cons.prems(1) obtain that1 where t1: "tick env now (timeScale that) that = Some (Inr that1)"
    and rest: "ticks env rest that1 = Some (Inr that')"
    by (auto simp: tick_invoker_def split: option.splits sum.splits)
  from Cons.prems(3) have fnow: "is_fin now" and frest: "list_all is_fin rest" by simp_all
  from tick_keeps[OF q fnow Cons.prems(2) t1 Cons.prems(4)]
  have k: "numeric (queue that1)" "timeScale that1 = timeScale that" by simp_all
  have nr: "\<not> rearms now x" using once by (simp add: rearms_def)
  show ?case
  proof (cases "js_le (num (priority x)) now")
    case True
    from tick_due[OF q fnow Cons.prems(2) t1 Cons.prems(4,5) True] nr
    have "firings i that1 = firings i that @ [now]" "mine i (queue that1) = []" by simp_all
    with ticks_leaves[OF quiet_leaves[OF q] rest, of i] True show ?thesis by simp
  next
    case False
    from tick_not_due[OF q t1 Cons.prems(5) False]
    have "mine i (queue that1) = [x]" "firings i that1 = firings i that" by simp_all
    with Cons.IH[OF rest _ frest k(1)] k(2) Cons.prems(2) False show ?thesis by simp
  qed
qed

lemma scheduleEvent_once_queued:
  assumes "type eventSpec \<noteq> Some ''repeat''" "callback eventSpec = Some c"
    "time eventSpec = Some t"
    "\<not> js_le (js_add (clock_time that) (js_mul t (timeScale that))) (clock_time that)"
  shows "\<exists>e. scheduleEvent env eventSpec that = Inr (e, that\<lparr>queue := queue that @ [e]\<rparr>) \<and>
           priority e = Some (js_add (clock_time that) (js_mul t (timeScale that))) \<and>
           type e \<noteq> Some ''repeat'' \<and> ident e = ident eventSpec \<and> callback e = Some c"
  using assms
  by (auto simp: scheduleEvent_def falsy_def validateEventSpec_def calcPriority_def num_def
      push_def Let_def)

text \<open>
  C1 fails as stated: with a repeat of negative frequency in the queue, the drain loop
  of the first tick that reaches the due time of a one-time event never ends. Here,
  after \<open>repeat(-1, c, 0)\<close> and \<open>once(2, c')\<close> at time 0, the one-time event is queued
  for 2 and has not fired, and \<open>tick(2)\<close> does not return: each turn of the loop pops
  the repeat, which is re-armed for 1, and never the one-time event.
\<close>

theorem once_starved_by_endless_tick:
  "(case repeat (\<lambda>c now e s. s) 7 (Some (Fin (- 1))) (Some 0) (Some (Fin 0)) None
           \<lparr>queue = [], timeScale = Fin 1, clock_time = Fin 0, trace = []\<rparr> of
      Inl _ \<Rightarrow> False
    | Inr (r, s1) \<Rightarrow>
        (case once (\<lambda>c now e s. s) 8 (Some (Fin 2)) (Some 1) s1 of
           Inl _ \<Rightarrow> False
         | Inr (e, s2) \<Rightarrow>
             priority e = Some (Fin 2) \<and> firings 8 s2 = [] \<and>
             tick_invoker (\<lambda>c now e s. s) (Fin 2) s2 = None))"
proof -
  let ?b = "\<lparr>ident = 7, type = Some ''repeat'', time = Some (Fin 0), freq = Some (Fin (- 1)),
       endTime = Some PInf, callback = Some 0, scheduledAt = Some (Fin 0),
       interval = Some (Fin (- 1)), priority = Some (Fin (- 1))\<rparr>"
  let ?b' = "\<lparr>ident = 7, type = Some ''repeat'', time = Some (Fin 0), freq = Some (Fin (- 1)),
       endTime = Some PInf, callback = Some 0, scheduledAt = Some (Fin 0),
       interval = Some (Fin (- 1)), priority = Some (Fin 1)\<rparr>"
  let ?o = "\<lparr>ident = 8, type = Some ''once'', time = Some (Fin 2), freq = None,
       endTime = None, callback = Some 1, scheduledAt = Some (Fin 0),
       interval = None, priority = Some (Fin 2)\<rparr>"
  let ?s1 = "\<lparr>queue = [?b], timeScale = Fin 1, clock_time = Fin 0, trace = [(7, Fin 0)]\<rparr>"
  let ?s2 = "\<lparr>queue = [?b, ?o], timeScale = Fin 1, clock_time = Fin 0, trace = [(7, Fin 0)]\<rparr>"
  have r1: "repeat (\<lambda>c now e s. s) 7 (Some (Fin (- 1))) (Some 0) (Some (Fin 0)) None
           \<lparr>queue = [], timeScale = Fin 1, clock_time = Fin 0, trace = []\<rparr> = Inr (?b, ?s1)"
    by code_simp
  have r2: "once (\<lambda>c now e s. s) 8 (Some (Fin 2)) (Some 1) ?s1 = Inr (?o, ?s2)"
    by code_simp
  have q: "quiet (\<lambda>c now e s. s)" by (simp add: quiet_def)
  have t1: "peek [?b, ?o] = Some ?b" "js_le (num (priority ?b)) (Fin 2)" "rearms (Fin 2) ?b"
    "rearm (Fin 2) (Fin 1) ?b = ?b'"
    by code_simp+
  have t2: "peek [?o, ?b'] = Some ?b'" "js_le (num (priority ?b')) (Fin 2)" "rearms (Fin 2) ?b'"
    "rearm (Fin 2) (Fin 1) ?b' = ?b'"
    by code_simp+
  have "tick (\<lambda>c now e s. s) (Fin 2) (Fin 1) ?s2 = None"
  proof (rule tick_diverges[OF q, where I = "\<lambda>q. q = [?b, ?o] \<or> q = [?o, ?b']"])
    show "queue ?s2 = [?b, ?o] \<or> queue ?s2 = [?o, ?b']" by simp
  next
    fix q :: priorityQueue
    assume "q = [?b, ?o] \<or> q = [?o, ?b']"
    then show "\<exists>nx c. peek q = Some nx \<and> js_le (num (priority nx)) (Fin 2) \<and>
                 callback nx = Some c \<and>
                 (remove1 nx q @ (if rearms (Fin 2) nx then [rearm (Fin 2) (Fin 1) nx] else [])
                    = [?b, ?o] \<or>
                  remove1 nx q @ (if rearms (Fin 2) nx then [rearm (Fin 2) (Fin 1) nx] else [])
                    = [?o, ?b'])"
    proof
      assume "q = [?b, ?o]"
      with t1 show ?thesis by (intro exI[of _ ?b] exI[of _ 0]) simp
    next
      assume "q = [?o, ?b']"
      with t2 show ?thesis by (intro exI[of _ ?b'] exI[of _ 0]) simp
    qed
  qed
  with r1 r2 show ?thesis by (simp add: tick_invoker_def firings_def)
qed

text \<open>
  C1, amended. A one-time event is scheduled at clock time \<open>s\<close> with time \<open>t\<close>, and its
  due time \<open>p = s + t * timeScale\<close> lies after \<open>s\<close>. Over any run of ticks that follows
  in which no drain loop goes on for ever (every queued repeat is re-armed, at each of
  these ticks, to a time that is not \<open><= now\<close>, and every queued callback is a
  function), every tick returns and the callback of the event is invoked exactly once,
  with the time of the first tick whose \<open>now\<close> has \<open>p <= now\<close>: not at any earlier tick,
  not again at any later one, and not at all if no tick reaches \<open>p\<close>. The frame: the
  object is not already in the queue, callbacks do not call back into the scheduler,
  the times and the time scale are finite and no queued priority is \<open>NaN\<close>.
\<close>

theorem once_fires_exactly_once:
  assumes "quiet env"
    and "is_fin (timeScale that)" and "list_all is_fin nows" and "numeric (queue that)"
    and "callable (queue that)" and "steady nows (timeScale that) (queue that)"
    and "ident eventSpec \<notin> ident ` set (queue that)"
    and "type eventSpec \<noteq> Some ''repeat''"
    and "callback eventSpec = Some c" and "time eventSpec = Some t"
    and "p = js_add (clock_time that) (js_mul t (timeScale that))"
    and "js_gt p (clock_time that)"
  shows "\<exists>e that1 that2.
           scheduleEvent env eventSpec that = Inr (e, that1) \<and>
           ticks env nows that1 = Some (Inr that2) \<and>
           firings (ident eventSpec) that2 =
             firings (ident eventSpec) that @
               (case find (\<lambda>now. js_le p now) nows of None \<Rightarrow> [] | Some now \<Rightarrow> [now])"
proof -
  have nd: "\<not> js_le (js_add (clock_time that) (js_mul t (timeScale that))) (clock_time that)"
    using assms(11,12) by (simp add: js_gt_not_le)
  from scheduleEvent_once_queued[OF assms(8,9,10) nd, of env] obtain e where
    s: "scheduleEvent env eventSpec that = Inr (e, that\<lparr>queue := queue that @ [e]\<rparr>)"
    and pr: "priority e = Some p" and ty: "type e \<noteq> Some ''repeat''"
    and id: "ident e = ident eventSpec" and cb: "callback e = Some c"
    using assms(11) by auto
  let ?that1 = "that\<lparr>queue := queue that @ [e]\<rparr>"
  have pn: "p \<noteq> NaN" using js_gt_not_NaN[OF assms(12)] by simp
  have m: "mine (ident eventSpec) (queue ?that1) = [e]"
    using assms(7) id mine_empty[of "ident eventSpec" "queue that"]
    by (simp add: mine_append mine_single)
  have n: "numeric (queue ?that1)"
    using assms(4) pr ty pn by (simp add: numeric_def num_def)
  have ca: "callable (queue ?that1)" using assms(5) cb by (simp add: callable_def)
  have st: "steady nows (timeScale ?that1) (queue ?that1)"
    using assms(6) ty by (simp add: steady_def rearmed_later_def rearms_def list_all_iff)
  from ticks_total[OF assms(1) ca st] obtain that2 where
    t: "ticks env nows ?that1 = Some (Inr that2)" ..
  have ts: "is_fin (timeScale ?that1)" using assms(2) by simp
  from ticks_once[OF assms(1) ty t ts assms(3) n m] pr
  have "firings (ident eventSpec) that2 =
          firings (ident eventSpec) that @
            (case find (\<lambda>now. js_le p now) nows of None \<Rightarrow> [] | Some now \<Rightarrow> [now])"
    by (simp add: firings_def num_def)
  with s t show ?thesis by blast
qed



text \<open>
  The witness is the scenario of the spec (\<open>once(2, c)\<close> at time 0, then the ticks 1,
  2 and 3), with a 2 Hz repeat already in the queue.
\<close>

theorem once_fires_exactly_once_witness:
  "quiet (\<lambda>c now e s. s)
   \<and> numeric [\<lparr>ident = 5, type = Some ''repeat'', time = Some (Fin 0), freq = Some (Fin 2),
          endTime = Some (Fin 5), callback = Some 1, scheduledAt = Some (Fin 0),
          interval = Some (Fin (1 / 2)), priority = Some (Fin (1 / 2))\<rparr>]
   \<and> callable [\<lparr>ident = 5, type = Some ''repeat'', time = Some (Fin 0), freq = Some (Fin 2),
          endTime = Some (Fin 5), callback = Some 1, scheduledAt = Some (Fin 0),
          interval = Some (Fin (1 / 2)), priority = Some (Fin (1 / 2))\<rparr>]
   \<and> steady [Fin 1, Fin 2, Fin 3] (Fin 1) [\<lparr>ident = 5, type = Some ''repeat'', time = Some (Fin 0), freq = Some (Fin 2),
          endTime = Some (Fin 5), callback = Some 1, scheduledAt = Some (Fin 0),
          interval = Some (Fin (1 / 2)), priority = Some (Fin (1 / 2))\<rparr>]
   \<and> js_gt (js_add (Fin 0) (js_mul (Fin 2) (Fin 1))) (Fin 0)
   \<and> (\<exists>e that1 that2.
        scheduleEvent (\<lambda>c now e s. s)
          \<lparr>ident = 7, type = Some ''once'', time = Some (Fin 2), freq = None, endTime = None,
          callback = Some 0, scheduledAt = None, interval = None, priority = None\<rparr>
          \<lparr>queue = [\<lparr>ident = 5, type = Some ''repeat'', time = Some (Fin 0), freq = Some (Fin 2),
          endTime = Some (Fin 5), callback = Some 1, scheduledAt = Some (Fin 0),
          interval = Some (Fin (1 / 2)), priority = Some (Fin (1 / 2))\<rparr>],
        timeScale = Fin 1, clock_time = Fin 0, trace = []\<rparr> = Inr (e, that1) \<and>
        ticks (\<lambda>c now e s. s) [Fin 1, Fin 2, Fin 3] that1 = Some (Inr that2) \<and>
        firings 7 that2 =
          firings 7 \<lparr>queue = [\<lparr>ident = 5, type = Some ''repeat'', time = Some (Fin 0), freq = Some (Fin 2),
          endTime = Some (Fin 5), callback = Some 1, scheduledAt = Some (Fin 0),
          interval = Some (Fin (1 / 2)), priority = Some (Fin (1 / 2))\<rparr>],
        timeScale = Fin 1, clock_time = Fin 0, trace = []\<rparr> @ [Fin 2])"
proof -
  have q: "quiet (\<lambda>c now e s. s)" by (simp add: quiet_def)
  have n: "numeric [\<lparr>ident = 5, type = Some ''repeat'', time = Some (Fin 0), freq = Some (Fin 2),
          endTime = Some (Fin 5), callback = Some 1, scheduledAt = Some (Fin 0),
          interval = Some (Fin (1 / 2)), priority = Some (Fin (1 / 2))\<rparr>]"
    by code_simp
  have c: "callable [\<lparr>ident = 5, type = Some ''repeat'', time = Some (Fin 0), freq = Some (Fin 2),
          endTime = Some (Fin 5), callback = Some 1, scheduledAt = Some (Fin 0),
          interval = Some (Fin (1 / 2)), priority = Some (Fin (1 / 2))\<rparr>]"
    by code_simp
  have st: "steady [Fin 1, Fin 2, Fin 3] (Fin 1) [\<lparr>ident = 5, type = Some ''repeat'', time = Some (Fin 0), freq = Some (Fin 2),
          endTime = Some (Fin 5), callback = Some 1, scheduledAt = Some (Fin 0),
          interval = Some (Fin (1 / 2)), priority = Some (Fin (1 / 2))\<rparr>]"
    by code_simp
  have f: "is_fin (Fin 1)" "list_all is_fin [Fin 1, Fin 2, Fin 3]"
    "js_gt (js_add (Fin 0) (js_mul (Fin 2) (Fin 1))) (Fin 0)"
    "find (\<lambda>now. js_le (js_add (Fin 0) (js_mul (Fin 2) (Fin 1))) now) [Fin 1, Fin 2, Fin 3]
       = Some (Fin 2)"
    by code_simp+
  from once_fires_exactly_once [OF q, where c = 0 and t = "Fin 2"
      and p = "js_add (Fin 0) (js_mul (Fin 2) (Fin 1))" and nows = "[Fin 1, Fin 2, Fin 3]"
      and that = "\<lparr>queue = [\<lparr>ident = 5, type = Some ''repeat'', time = Some (Fin 0), freq = Some (Fin 2),
          endTime = Some (Fin 5), callback = Some 1, scheduledAt = Some (Fin 0),
          interval = Some (Fin (1 / 2)), priority = Some (Fin (1 / 2))\<rparr>],
        timeScale = Fin 1, clock_time = Fin 0, trace = []\<rparr>"
      and eventSpec = "\<lparr>ident = 7, type = Some ''once'', time = Some (Fin 2), freq = None, endTime = None,
          callback = Some 0, scheduledAt = None, interval = None, priority = None\<rparr>"] q n c st f
  show ?thesis by simp
qed

section \<open>Repeating events\<close>






section \<open>Callbacks that clear their own event\<close>

lemma clear_absent: "mine (ident e) (queue s) = [] \<Longrightarrow> clear e s = s"
  by (simp add: clear_def remove_absent mine_empty)

lemma self_evaluate:
  assumes "clears_self_only env" and "mine (ident ev) (queue st) = []"
  shows "evaluateScoreEvent env ev now ts st = evaluateScoreEvent (\<lambda>c now e s. s) ev now ts st"
proof (cases "callback ev")
  case None
  then show ?thesis by (simp add: evaluateScoreEvent_def invoke_def)
next
  case (Some c)
  let ?s = "st\<lparr>trace := trace st @ [(ident ev, now)]\<rparr>"
  have "mine (ident ev) (queue ?s) = []" using assms(2) by simp
  from clear_absent[OF this] assms(1) have "env c now ev ?s = ?s"
    unfolding clears_self_only_def by metis
  with Some show ?thesis by (simp add: evaluateScoreEvent_def invoke_def)
qed

lemma distinct_remove1_ident:
  assumes "distinct (map ident q)" "nx \<in> set q"
  shows "distinct (map ident (remove1 nx q))" and "ident nx \<notin> ident ` set (remove1 nx q)"
proof -
  from assms(1) have d: "distinct q" and inj: "inj_on ident (set q)"
    by (simp_all add: distinct_map)
  have sub: "set (remove1 nx q) \<subseteq> set q" by (rule set_remove1_subset)
  show "distinct (map ident (remove1 nx q))"
    using d inj sub by (auto simp: distinct_map intro: inj_on_subset)
  show "ident nx \<notin> ident ` set (remove1 nx q)"
  proof
    assume "ident nx \<in> ident ` set (remove1 nx q)"
    then obtain y where y: "y \<in> set (remove1 nx q)" "ident y = ident nx" by auto
    with sub inj assms(2) have "y = nx" by (auto dest: inj_onD)
    with y(1) d show False by simp
  qed
qed

lemma tick_from_quiet:
  assumes cs: "clears_self_only env" and run: "tick (\<lambda>c now e s. s) now ts that = Some r"
    and "distinct (map ident (queue that))"
  shows "tick env now ts that = Some r"
proof -
  have q: "quiet (\<lambda>c now e s. s)" by (simp add: quiet_def)
  have "distinct (map ident (queue that)) \<longrightarrow> tick env now ts that = Some r"
    using run
  proof (induction rule: tick_induct)
    case (stop that)
    then show ?case by (subst tick.simps) (auto simp: drained_def split: option.splits)
  next
    case (error that nx e)
    show ?case
    proof
      assume d: "distinct (map ident (queue that))"
      from distinct_remove1_ident(2)[OF d peek_mem[OF error(1)]] pop_peek[OF error(1)]
      have "mine (ident nx) (queue (that\<lparr>queue := pop (queue that)\<rparr>)) = []"
        by (simp add: mine_empty)
      from self_evaluate[OF cs this] error(3)
      have "evaluateScoreEvent env nx now ts (that\<lparr>queue := pop (queue that)\<rparr>) = Inl e"
        by simp
      with error(1,2) show "tick env now ts that = Some (Inl e)"
        by (subst tick.simps) simp
    qed
  next
    case (step that nx ev that1 r)
    show ?case
    proof
      assume d: "distinct (map ident (queue that))"
      note dr = distinct_remove1_ident[OF d peek_mem[OF step(1)]]
      from dr(2) pop_peek[OF step(1)]
      have "mine (ident nx) (queue (that\<lparr>queue := pop (queue that)\<rparr>)) = []"
        by (simp add: mine_empty)
      from self_evaluate[OF cs this] step(3)
      have ev: "evaluateScoreEvent env nx now ts (that\<lparr>queue := pop (queue that)\<rparr>)
                = Inr (ev, that1)"
        by simp
      from quiet_step(4)[OF q step(1,3)] dr have "distinct (map ident (queue that1))"
        by (auto simp: rearm_def)
      with step.IH have "tick env now ts that1 = Some r" by simp
      with step(1,2) ev show "tick env now ts that = Some r"
        by (subst tick.simps) simp
    qed
  qed
  with assms(3) show ?thesis by simp
qed

text \<open>
  C10. The callback of a repeat calls \<open>clear\<close> on its own event (callbacks do nothing
  else to the scheduler). When the event is evaluated at \<open>now\<close>, before its end, it is
  not in the queue (\<open>tick\<close> has popped it; \<open>scheduleEvent\<close> has not pushed it), so the
  \<open>clear\<close> removes nothing: the event is pushed again, re-armed. And it fires again:
  a tick at a time \<open>now'\<close> that reaches its new due time returns with the callback
  invoked once more, at \<open>now'\<close>. The frame of the second part: the queue holds each
  object once and only functions as callbacks, the numbers are finite, and the drain
  loop at \<open>now'\<close> ends (every queued repeat, the event included, is re-armed to a time
  that is not \<open><= now'\<close>).
\<close>

theorem clear_in_own_callback_has_no_effect:
  assumes "clears_self_only env" and "\<forall>now e s. env c now e s = clear e s"
    and "callback x = Some c" and "type x = Some ''repeat''"
    and "js_gt (num (endTime x)) now"
    and "mine (ident x) (queue that) = []"
    and "ev = x\<lparr>priority := Some (js_add now (js_mul (num (interval x)) ts))\<rparr>"
    and "thatp = that\<lparr>trace := trace that @ [(ident x, now)], queue := queue that @ [ev]\<rparr>"
  shows "evaluateScoreEvent env x now ts that = Inr (ev, thatp)
         \<and> (distinct (map ident (queue that)) \<and> numeric (queue that) \<and>
            callable (queue that) \<and> is_fin now \<and> is_fin ts \<and> is_fin (num (interval x)) \<and>
            is_fin now' \<and> is_fin ts' \<and>
            js_le (js_add now (js_mul (num (interval x)) ts)) now' \<and>
            rearmed_later now' ts' (queue thatp) \<longrightarrow>
            (\<exists>that2. tick env now' ts' thatp = Some (Inr that2) \<and>
               firings (ident x) that2 = firings (ident x) that @ [now, now']))"
proof (intro conjI impI)
  have q: "quiet (\<lambda>c now e s. s)" by (simp add: quiet_def)
  have re: "rearms now x" using assms(4,5) by (simp add: rearms_def)
  have ev: "ev = rearm now ts x" using assms(7) by (simp add: rearm_def)
  show e1: "evaluateScoreEvent env x now ts that = Inr (ev, thatp)"
    using self_evaluate[OF assms(1,6)] assms(3) re ev assms(8)
    by (simp add: quiet_evaluate[OF q])
  assume a: "distinct (map ident (queue that)) \<and> numeric (queue that) \<and>
            callable (queue that) \<and> is_fin now \<and> is_fin ts \<and> is_fin (num (interval x)) \<and>
            is_fin now' \<and> is_fin ts' \<and>
            js_le (js_add now (js_mul (num (interval x)) ts)) now' \<and>
            rearmed_later now' ts' (queue thatp)"
  have d1: "distinct (map ident (queue thatp))"
    using a assms(6,8) ev by (auto simp: mine_empty rearm_def)
  have n1: "numeric (queue thatp)"
    using a assms(8,7) calc_not_NaN[of now "num (interval x)" ts]
    by (simp add: numeric_def num_def)
  have c1: "callable (queue thatp)"
    using a assms(8,7,3) by (simp add: callable_def)
  have m1: "mine (ident x) (queue thatp) = [ev]"
    using assms(6,8) ev by (simp add: mine_append mine_single rearm_def)
  have due: "js_le (num (priority ev)) now'" using a ev by (simp add: rearm_def num_def)
  have later: "rearms now' ev \<longrightarrow> \<not> js_le (num (priority (rearm now' ts' ev))) now'"
    using a assms(8) by (auto simp: rearmed_later_def rearm_def num_def)
  from a have rl: "rearmed_later now' ts' (queue thatp)" by simp
  from tick_total_ts[OF q rl c1] obtain that2 where
    t: "tick (\<lambda>c now e s. s) now' ts' thatp = Some (Inr that2)" by auto
  from a have fn: "is_fin now'" "is_fin ts'" by simp_all
  from tick_due[OF q fn t n1 m1 due later]
  have "firings (ident x) that2 = firings (ident x) thatp @ [now']" by simp
  with assms(8) have "firings (ident x) that2 = firings (ident x) that @ [now, now']"
    by (simp add: firings_def)
  with tick_from_quiet[OF assms(1) t d1]
  show "\<exists>that2. tick env now' ts' thatp = Some (Inr that2) \<and>
               firings (ident x) that2 = firings (ident x) that @ [now, now']"
    by blast
qed



text \<open>
  The witness: the event is evaluated at 0 with another event queued; its callback
  clears it, it is pushed re-armed for 0.5, and \<open>tick(1)\<close> invokes it again.
\<close>

theorem clear_in_own_callback_has_no_effect_witness:
  "clears_self_only (\<lambda>c now e s. clear e s)
   \<and> evaluateScoreEvent (\<lambda>c now e s. clear e s)
       \<lparr>ident = 7, type = Some ''repeat'', time = Some (Fin 0),
          freq = Some (Fin 2), endTime = Some (Fin 5), callback = Some 0,
          scheduledAt = Some (Fin 0), interval = Some (Fin (1 / 2)),
          priority = Some (Fin 0)\<rparr> (Fin 0) (Fin 1)
       \<lparr>queue = [\<lparr>ident = 8, type = Some ''once'', time = Some (Fin 2), freq = None,
          endTime = None, callback = Some 1, scheduledAt = Some (Fin 0),
          interval = None, priority = Some (Fin 2)\<rparr>],
        timeScale = Fin 1, clock_time = Fin 0, trace = []\<rparr>
     = Inr (\<lparr>ident = 7, type = Some ''repeat'', time = Some (Fin 0),
          freq = Some (Fin 2), endTime = Some (Fin 5), callback = Some 0,
          scheduledAt = Some (Fin 0), interval = Some (Fin (1 / 2)),
          priority = Some (js_add (Fin 0) (js_mul (Fin (1 / 2)) (Fin 1)))\<rparr>,
            \<lparr>queue = [\<lparr>ident = 8, type = Some ''once'', time = Some (Fin 2), freq = None,
          endTime = None, callback = Some 1, scheduledAt = Some (Fin 0),
          interval = None, priority = Some (Fin 2)\<rparr>,
         \<lparr>ident = 7, type = Some ''repeat'', time = Some (Fin 0),
          freq = Some (Fin 2), endTime = Some (Fin 5), callback = Some 0,
          scheduledAt = Some (Fin 0), interval = Some (Fin (1 / 2)),
          priority = Some (js_add (Fin 0) (js_mul (Fin (1 / 2)) (Fin 1)))\<rparr>],
        timeScale = Fin 1, clock_time = Fin 0, trace = [(7, Fin 0)]\<rparr>)
   \<and> (\<exists>that2. tick (\<lambda>c now e s. clear e s) (Fin 1) (Fin 1)
        \<lparr>queue = [\<lparr>ident = 8, type = Some ''once'', time = Some (Fin 2), freq = None,
          endTime = None, callback = Some 1, scheduledAt = Some (Fin 0),
          interval = None, priority = Some (Fin 2)\<rparr>,
         \<lparr>ident = 7, type = Some ''repeat'', time = Some (Fin 0),
          freq = Some (Fin 2), endTime = Some (Fin 5), callback = Some 0,
          scheduledAt = Some (Fin 0), interval = Some (Fin (1 / 2)),
          priority = Some (js_add (Fin 0) (js_mul (Fin (1 / 2)) (Fin 1)))\<rparr>],
        timeScale = Fin 1, clock_time = Fin 0, trace = [(7, Fin 0)]\<rparr> = Some (Inr that2) \<and>
      firings 7 that2 =
        firings 7 \<lparr>queue = [\<lparr>ident = 8, type = Some ''once'', time = Some (Fin 2), freq = None,
          endTime = None, callback = Some 1, scheduledAt = Some (Fin 0),
          interval = None, priority = Some (Fin 2)\<rparr>],
        timeScale = Fin 1, clock_time = Fin 0, trace = []\<rparr> @ [Fin 0, Fin 1])"
proof -
  have c: "clears_self_only (\<lambda>c now e s. clear e s)" by (simp add: clears_self_only_def)
  have a: "\<forall>now e s. (\<lambda>c now e s. clear e s) 0 now e s = clear e s" by simp
  have f: "js_gt (Fin 5) (Fin 0)" "is_fin (Fin 0)" "is_fin (Fin 1)" "is_fin (Fin (1 / 2))"
    "js_le (js_add (Fin 0) (js_mul (Fin (1 / 2)) (Fin 1))) (Fin 1)"
    "mine 7 [\<lparr>ident = 8, type = Some ''once'', time = Some (Fin 2), freq = None,
          endTime = None, callback = Some 1, scheduledAt = Some (Fin 0),
          interval = None, priority = Some (Fin 2)\<rparr>] = []"
    "numeric [\<lparr>ident = 8, type = Some ''once'', time = Some (Fin 2), freq = None,
          endTime = None, callback = Some 1, scheduledAt = Some (Fin 0),
          interval = None, priority = Some (Fin 2)\<rparr>]"
    "callable [\<lparr>ident = 8, type = Some ''once'', time = Some (Fin 2), freq = None,
          endTime = None, callback = Some 1, scheduledAt = Some (Fin 0),
          interval = None, priority = Some (Fin 2)\<rparr>]"
    "rearmed_later (Fin 1) (Fin 1)
       [\<lparr>ident = 8, type = Some ''once'', time = Some (Fin 2), freq = None,
          endTime = None, callback = Some 1, scheduledAt = Some (Fin 0),
          interval = None, priority = Some (Fin 2)\<rparr>,
        \<lparr>ident = 7, type = Some ''repeat'', time = Some (Fin 0),
          freq = Some (Fin 2), endTime = Some (Fin 5), callback = Some 0,
          scheduledAt = Some (Fin 0), interval = Some (Fin (1 / 2)),
          priority = Some (js_add (Fin 0) (js_mul (Fin (1 / 2)) (Fin 1)))\<rparr>]"
    by code_simp+
  have w1: "evaluateScoreEvent (\<lambda>c now e s. clear e s)
       \<lparr>ident = 7, type = Some ''repeat'', time = Some (Fin 0),
          freq = Some (Fin 2), endTime = Some (Fin 5), callback = Some 0,
          scheduledAt = Some (Fin 0), interval = Some (Fin (1 / 2)),
          priority = Some (Fin 0)\<rparr> (Fin 0) (Fin 1)
       \<lparr>queue = [\<lparr>ident = 8, type = Some ''once'', time = Some (Fin 2), freq = None,
          endTime = None, callback = Some 1, scheduledAt = Some (Fin 0),
          interval = None, priority = Some (Fin 2)\<rparr>],
        timeScale = Fin 1, clock_time = Fin 0, trace = []\<rparr>
     = Inr (\<lparr>ident = 7, type = Some ''repeat'', time = Some (Fin 0),
          freq = Some (Fin 2), endTime = Some (Fin 5), callback = Some 0,
          scheduledAt = Some (Fin 0), interval = Some (Fin (1 / 2)),
          priority = Some (js_add (Fin 0) (js_mul (Fin (1 / 2)) (Fin 1)))\<rparr>,
            \<lparr>queue = [\<lparr>ident = 8, type = Some ''once'', time = Some (Fin 2), freq = None,
          endTime = None, callback = Some 1, scheduledAt = Some (Fin 0),
          interval = None, priority = Some (Fin 2)\<rparr>,
         \<lparr>ident = 7, type = Some ''repeat'', time = Some (Fin 0),
          freq = Some (Fin 2), endTime = Some (Fin 5), callback = Some 0,
          scheduledAt = Some (Fin 0), interval = Some (Fin (1 / 2)),
          priority = Some (js_add (Fin 0) (js_mul (Fin (1 / 2)) (Fin 1)))\<rparr>],
        timeScale = Fin 1, clock_time = Fin 0, trace = [(7, Fin 0)]\<rparr>)"
    using clear_in_own_callback_has_no_effect [OF c a, where c = 0 and now = "Fin 0" and ts = "Fin 1"
      and now' = "Fin 1" and ts' = "Fin 1"
      and that = "\<lparr>queue = [\<lparr>ident = 8, type = Some ''once'', time = Some (Fin 2), freq = None,
          endTime = None, callback = Some 1, scheduledAt = Some (Fin 0),
          interval = None, priority = Some (Fin 2)\<rparr>],
        timeScale = Fin 1, clock_time = Fin 0, trace = []\<rparr>"
      and x = "\<lparr>ident = 7, type = Some ''repeat'', time = Some (Fin 0),
          freq = Some (Fin 2), endTime = Some (Fin 5), callback = Some 0,
          scheduledAt = Some (Fin 0), interval = Some (Fin (1 / 2)),
          priority = Some (Fin 0)\<rparr>"
      and ev = "\<lparr>ident = 7, type = Some ''repeat'', time = Some (Fin 0),
          freq = Some (Fin 2), endTime = Some (Fin 5), callback = Some 0,
          scheduledAt = Some (Fin 0), interval = Some (Fin (1 / 2)),
          priority = Some (js_add (Fin 0) (js_mul (Fin (1 / 2)) (Fin 1)))\<rparr>"
      and thatp = "\<lparr>queue = [\<lparr>ident = 8, type = Some ''once'', time = Some (Fin 2), freq = None,
          endTime = None, callback = Some 1, scheduledAt = Some (Fin 0),
          interval = None, priority = Some (Fin 2)\<rparr>,
         \<lparr>ident = 7, type = Some ''repeat'', time = Some (Fin 0),
          freq = Some (Fin 2), endTime = Some (Fin 5), callback = Some 0,
          scheduledAt = Some (Fin 0), interval = Some (Fin (1 / 2)),
          priority = Some (js_add (Fin 0) (js_mul (Fin (1 / 2)) (Fin 1)))\<rparr>],
        timeScale = Fin 1, clock_time = Fin 0, trace = [(7, Fin 0)]\<rparr>",
      THEN conjunct1] f
    by (simp add: num_def)
  have w2: "(\<exists>that2. tick (\<lambda>c now e s. clear e s) (Fin 1) (Fin 1)
        \<lparr>queue = [\<lparr>ident = 8, type = Some ''once'', time = Some (Fin 2), freq = None,
          endTime = None, callback = Some 1, scheduledAt = Some (Fin 0),
          interval = None, priority = Some (Fin 2)\<rparr>,
         \<lparr>ident = 7, type = Some ''repeat'', time = Some (Fin 0),
          freq = Some (Fin 2), endTime = Some (Fin 5), callback = Some 0,
          scheduledAt = Some (Fin 0), interval = Some (Fin (1 / 2)),
          priority = Some (js_add (Fin 0) (js_mul (Fin (1 / 2)) (Fin 1)))\<rparr>],
        timeScale = Fin 1, clock_time = Fin 0, trace = [(7, Fin 0)]\<rparr> = Some (Inr that2) \<and>
      firings 7 that2 =
        firings 7 \<lparr>queue = [\<lparr>ident = 8, type = Some ''once'', time = Some (Fin 2), freq = None,
          endTime = None, callback = Some 1, scheduledAt = Some (Fin 0),
          interval = None, priority = Some (Fin 2)\<rparr>],
        timeScale = Fin 1, clock_time = Fin 0, trace = []\<rparr> @ [Fin 0, Fin 1])"
    using clear_in_own_callback_has_no_effect [OF c a, where c = 0 and now = "Fin 0" and ts = "Fin 1"
      and now' = "Fin 1" and ts' = "Fin 1"
      and that = "\<lparr>queue = [\<lparr>ident = 8, type = Some ''once'', time = Some (Fin 2), freq = None,
          endTime = None, callback = Some 1, scheduledAt = Some (Fin 0),
          interval = None, priority = Some (Fin 2)\<rparr>],
        timeScale = Fin 1, clock_time = Fin 0, trace = []\<rparr>"
      and x = "\<lparr>ident = 7, type = Some ''repeat'', time = Some (Fin 0),
          freq = Some (Fin 2), endTime = Some (Fin 5), callback = Some 0,
          scheduledAt = Some (Fin 0), interval = Some (Fin (1 / 2)),
          priority = Some (Fin 0)\<rparr>"
      and ev = "\<lparr>ident = 7, type = Some ''repeat'', time = Some (Fin 0),
          freq = Some (Fin 2), endTime = Some (Fin 5), callback = Some 0,
          scheduledAt = Some (Fin 0), interval = Some (Fin (1 / 2)),
          priority = Some (js_add (Fin 0) (js_mul (Fin (1 / 2)) (Fin 1)))\<rparr>"
      and thatp = "\<lparr>queue = [\<lparr>ident = 8, type = Some ''once'', time = Some (Fin 2), freq = None,
          endTime = None, callback = Some 1, scheduledAt = Some (Fin 0),
          interval = None, priority = Some (Fin 2)\<rparr>,
         \<lparr>ident = 7, type = Some ''repeat'', time = Some (Fin 0),
          freq = Some (Fin 2), endTime = Some (Fin 5), callback = Some 0,
          scheduledAt = Some (Fin 0), interval = Some (Fin (1 / 2)),
          priority = Some (js_add (Fin 0) (js_mul (Fin (1 / 2)) (Fin 1)))\<rparr>],
        timeScale = Fin 1, clock_time = Fin 0, trace = [(7, Fin 0)]\<rparr>",
      THEN conjunct2] f
    by (simp add: num_def)
  from c w1 w2 show ?thesis by (intro conjI)
qed

section \<open>The due times of a repeat\<close>

lemma ticks_repeat:
  assumes q: "quiet env"
  shows "ticks env (due_times p d n) that = Some (Inr that') \<Longrightarrow>
         is_fin (timeScale that) \<Longrightarrow> list_all is_fin (due_times p d n) \<Longrightarrow>
         numeric (queue that) \<Longrightarrow> mine i (queue that) = [x] \<Longrightarrow>
         type x = Some ''repeat'' \<Longrightarrow>
         d = js_mul (num (interval x)) (timeScale that) \<Longrightarrow>
         priority x = Some p \<Longrightarrow>
         list_all (\<lambda>t. js_le t (num (endTime x))) (due_times p d n) \<Longrightarrow>
         list_all (\<lambda>t. \<not> js_le (js_add t d) t) (due_times p d n) \<Longrightarrow>
         firings i that' = firings i that @ due_times p d n"
proof (induction n arbitrary: p that x)
  case 0
  then show ?case by simp
next
  case (Suc n)
  let ?ts = "timeScale that"
  from Suc.prems(1) obtain that1 where t1: "tick env p ?ts that = Some (Inr that1)"
    and rest: "ticks env (due_times (js_add p d) d n) that1 = Some (Inr that')"
    by (auto simp: tick_invoker_def split: option.splits sum.splits)
  from Suc.prems(3) have fp: "is_fin p" and frest: "list_all is_fin (due_times (js_add p d) d n)"
    by simp_all
  have due: "js_le (num (priority x)) p"
    using Suc.prems(8) js_le_refl[OF is_fin_not_NaN[OF fp]] by (simp add: num_def)
  have pr: "priority (rearm p ?ts x) = Some (js_add p d)"
    using Suc.prems(7) by (simp add: rearm_def)
  from Suc.prems(10) have nl: "\<not> js_le (js_add p d) p" by simp
  have later: "rearms p x \<longrightarrow> \<not> js_le (num (priority (rearm p ?ts x))) p"
    using pr nl by (simp add: num_def)
  from tick_due[OF q fp Suc.prems(2) t1 Suc.prems(4,5) due later]
  have f1: "firings i that1 = firings i that @ [p]"
    and m1: "mine i (queue that1) = (if rearms p x then [rearm p ?ts x] else [])"
    by simp_all
  from tick_keeps[OF q fp Suc.prems(2) t1 Suc.prems(4)]
  have k: "numeric (queue that1)" "timeScale that1 = ?ts" by simp_all
  show ?case
  proof (cases n)
    case 0
    with rest f1 show ?thesis by simp
  next
    case (Suc m)
    with Suc.prems(9) have "js_le (js_add p d) (num (endTime x))" by simp
    from js_le_gt_trans[OF this nl is_fin_not_NaN[OF fp]] Suc.prems(6)
    have re: "rearms p x" by (simp add: rearms_def)
    let ?x = "rearm p ?ts x"
    from m1 re have m: "mine i (queue that1) = [?x]" by simp
    have ends: "list_all (\<lambda>t. js_le t (num (endTime ?x))) (due_times (js_add p d) d n)"
      using Suc.prems(9) by (simp add: rearm_def)
    have lat: "list_all (\<lambda>t. \<not> js_le (js_add t d) t) (due_times (js_add p d) d n)"
      using Suc.prems(10) by simp
    have ty: "type ?x = Some ''repeat''" using Suc.prems(6) by (simp add: rearm_def)
    have dd: "d = js_mul (num (interval ?x)) (timeScale that1)"
      using Suc.prems(7) k(2) by (simp add: rearm_def)
    from Suc.IH[OF rest _ frest k(1) m ty dd pr ends lat] k(2) Suc.prems(2) f1
    show ?thesis by simp
  qed
qed

lemma scheduleEvent_repeat_cases:
  assumes "quiet env" and "type eventSpec = Some ''repeat''" and "callback eventSpec = Some cb"
    and "freq eventSpec = Some f" and "time eventSpec = Some t"
    and "absEnd = (case endTime eventSpec of None \<Rightarrow> PInf
                   | Some e \<Rightarrow> js_add e (clock_time that))"
    and "p = js_add (clock_time that) (js_mul t (timeScale that))"
    and "d = js_mul (js_div (Fin 1) f) (timeScale that)"
  shows "\<exists>ev that1. scheduleEvent env eventSpec that = Inr (ev, that1) \<and>
           type ev = Some ''repeat'' \<and> interval ev = Some (js_div (Fin 1) f) \<and>
           endTime ev = Some absEnd \<and> ident ev = ident eventSpec \<and> callback ev = Some cb \<and>
           timeScale that1 = timeScale that \<and>
           (if js_le p (clock_time that)
            then trace that1 = trace that @ [(ident eventSpec, clock_time that)] \<and>
                 (if js_gt absEnd (clock_time that)
                  then queue that1 = queue that @ [ev] \<and>
                       priority ev = Some (js_add (clock_time that) d)
                  else queue that1 = queue that)
            else that1 = that\<lparr>queue := queue that @ [ev]\<rparr> \<and> priority ev = Some p)"
  using assms
  by (auto simp: scheduleEvent_def falsy_def expandRepeatingEventSpec_def
      validateEventSpec_def calcPriority_def num_def push_def Let_def
      quiet_evaluate rearms_def rearm_def split: option.splits)

text \<open>
  C4 fails as stated: with a clock that ticks once a second, a repeat of 2 Hz that
  starts at 0.5 and ends at 2 (occurrences 0.5, 1, 1.5 and 2) is invoked twice, at the
  ticks 1 and 2: each firing re-arms the event one interval after the tick, not after
  the occurrence.
\<close>

theorem coarse_ticks_skip_occurrences:
  "(case repeat (\<lambda>c now e s. s) 7 (Some (Fin 2)) (Some 0) (Some (Fin (1 / 2))) (Some (Fin 2))
           \<lparr>queue = [], timeScale = Fin 1, clock_time = Fin 0, trace = []\<rparr> of
      Inl _ \<Rightarrow> False
    | Inr (e, s) \<Rightarrow>
        ticks (\<lambda>c now e s. s) [Fin 1, Fin 2] s =
          Some (Inr \<lparr>queue = [], timeScale = Fin 1, clock_time = Fin 0,
                     trace = [(7, Fin 1), (7, Fin 2)]\<rparr>))"
  by code_simp

lemma steady_append: "steady nows ts (q @ r) \<longleftrightarrow> steady nows ts q \<and> steady nows ts r"
  by (auto simp: steady_def rearmed_later_def list_all_iff)

text \<open>
  C4, amended. A repeat of frequency \<open>f\<close>, time \<open>t\<close> and end \<open>e\<close> is scheduled at clock
  time \<open>s\<close> under the time scale \<open>c\<close>. Its due times, as the program computes them, are
  \<open>p0 = s + t * c\<close> and then each time the one before plus \<open>d = (1 / f) * c\<close>. Let the
  first \<open>n\<close> of them be finite, each followed by a later one (\<open>p + d\<close> is not \<open><= p\<close>),
  and all \<open><= e + s\<close>; let the event not be late when it is scheduled (\<open>p0 > s\<close>, or
  \<open>p0 = s\<close> and \<open>n > 0\<close>); and let the clock tick exactly at these \<open>n\<close> times. Then
  every tick returns, and the callback is invoked at exactly these times, once each
  and in this order (the first of them inside the scheduling call when \<open>p0 = s\<close>).
  Nothing is said of ticks at other times, nor of what follows the last of these due
  times. The frame is that of C1.
\<close>

theorem repeat_fires_at_due_times:
  assumes "quiet env" and "numeric (queue that)" and "callable (queue that)"
    and "ident eventSpec \<notin> ident ` set (queue that)"
    and "type eventSpec = Some ''repeat''" and "callback eventSpec = Some cb"
    and "freq eventSpec = Some f" and "is_fin (js_div (Fin 1) f)"
    and "time eventSpec = Some t" and "is_fin (timeScale that)"
    and "absEnd = (case endTime eventSpec of None \<Rightarrow> PInf
                   | Some e \<Rightarrow> js_add e (clock_time that))"
    and "p = js_add (clock_time that) (js_mul t (timeScale that))"
    and "d = js_mul (js_div (Fin 1) f) (timeScale that)"
    and "nows = due_times p d n"
    and "list_all is_fin nows"
    and "list_all (\<lambda>time. js_le time absEnd) nows"
    and "list_all (\<lambda>time. \<not> js_le (js_add time d) time) nows"
    and "js_gt p (clock_time that) \<or> (p = clock_time that \<and> 0 < n)"
    and "steady nows (timeScale that) (queue that)"
  shows "\<exists>ev that1 that2.
           scheduleEvent env eventSpec that = Inr (ev, that1) \<and>
           ticks env nows that1 = Some (Inr that2) \<and>
           firings (ident eventSpec) that2 = firings (ident eventSpec) that @ nows"
proof -
  let ?i = "ident eventSpec"
  let ?ts = "timeScale that"
  let ?s = "clock_time that"
  note q = assms(1)
  from scheduleEvent_repeat_cases[OF q assms(5,6,7,9,11,12,13)] obtain ev that1 where
    sch: "scheduleEvent env eventSpec that = Inr (ev, that1)"
    and ty: "type ev = Some ''repeat''" and iv: "interval ev = Some (js_div (Fin 1) f)"
    and en: "endTime ev = Some absEnd" and id: "ident ev = ?i" and cb: "callback ev = Some cb"
    and ts1: "timeScale that1 = ?ts"
    and cases: "if js_le p ?s
            then trace that1 = trace that @ [(?i, ?s)] \<and>
                 (if js_gt absEnd ?s
                  then queue that1 = queue that @ [ev] \<and> priority ev = Some (js_add ?s d)
                  else queue that1 = queue that)
            else that1 = that\<lparr>queue := queue that @ [ev]\<rparr> \<and> priority ev = Some p"
    by blast
  have absent: "mine ?i (queue that) = []" using assms(4) by (simp add: mine_empty)
  have dd: "d = js_mul (num (interval ev)) ?ts" using assms(13) iv by (simp add: num_def)
  have ends: "list_all (\<lambda>t. js_le t (num (endTime ev))) l"
    if "list_all (\<lambda>time. js_le time absEnd) l" for l
    using that en by (simp add: num_def)
  have fts1: "is_fin (timeScale that1)" using assms(10) ts1 by simp
  have st_ev: "steady nows ?ts [ev]"
    using assms(17) dd by (simp add: steady_def rearmed_later_def list_all_iff)
  have fiv: "is_fin (num (interval ev))" using assms(8) iv by (simp add: num_def)
  have q1: "queue that1 = queue that \<or> queue that1 = queue that @ [ev]"
    using cases by (auto split: if_splits)
  have ca1: "callable (queue that1)"
    using q1 assms(3) cb by (auto simp: callable_def)
  have st1: "steady nows (timeScale that1) (queue that1)"
    using q1 assms(19) st_ev ts1 by (auto simp: steady_append)
  from ticks_total[OF q ca1 st1] obtain that2 where
    run: "ticks env nows that1 = Some (Inr that2)" ..
  have "firings ?i that2 = firings ?i that @ nows"
  proof (cases "js_gt p ?s")
    case True
    then have "\<not> js_le p ?s" by (rule js_gt_not_le)
    with cases have t1: "that1 = that\<lparr>queue := queue that @ [ev]\<rparr>"
      and pr: "priority ev = Some p" by simp_all
    have pn: "p \<noteq> NaN" using js_gt_not_NaN[OF True] by simp
    have m: "mine ?i (queue that1) = [ev]"
      using absent id t1 by (simp add: mine_append mine_single)
    have n1: "numeric (queue that1)"
      using assms(2) t1 pr pn fiv by (simp add: numeric_def num_def)
    from ticks_repeat[OF q run[unfolded assms(14)] fts1 assms(15)[unfolded assms(14)] n1 m ty
        dd[folded ts1] pr ends[OF assms(16)[unfolded assms(14)]] assms(17)[unfolded assms(14)]]
      t1 assms(14)
    show ?thesis by (simp add: firings_def)
  next
    case False
    with assms(18) have ps: "p = ?s" and "0 < n" by simp_all
    then obtain m where n: "n = Suc m" by (cases n) simp_all
    have nows: "nows = p # due_times (js_add p d) d m" using assms(14) n by simp
    from assms(15) nows have fp: "is_fin p"
      and frest: "list_all is_fin (due_times (js_add p d) d m)" by simp_all
    from assms(17) nows have nl: "\<not> js_le (js_add p d) p"
      and lrest: "list_all (\<lambda>time. \<not> js_le (js_add time d) time) (due_times (js_add p d) d m)"
      by simp_all
    have "js_le p ?s" using ps js_le_refl[OF is_fin_not_NaN[OF fp]] by simp
    with cases have tr: "trace that1 = trace that @ [(?i, ?s)]"
      and qq: "if js_gt absEnd ?s
               then queue that1 = queue that @ [ev] \<and> priority ev = Some (js_add ?s d)
               else queue that1 = queue that"
      by simp_all
    from tr ps have f1: "firings ?i that1 = firings ?i that @ [p]" by (simp add: firings_def)
    from run nows obtain that1' where
      t1: "tick env p (timeScale that1) that1 = Some (Inr that1')"
      and rest: "ticks env (due_times (js_add p d) d m) that1' = Some (Inr that2)"
      by (auto simp: tick_invoker_def split: option.splits sum.splits)
    show ?thesis
    proof (cases "js_gt absEnd ?s")
      case True
      with qq have q1': "queue that1 = queue that @ [ev]"
        and pr: "priority ev = Some (js_add p d)" using ps by simp_all
      have m1: "mine ?i (queue that1) = [ev]"
        using absent id q1' by (simp add: mine_append mine_single)
      have "js_add p d \<noteq> NaN"
        using calc_not_NaN[OF fp assms(8,10)] assms(13) by simp
      then have n1: "numeric (queue that1)"
        using assms(2) q1' pr fiv by (simp add: numeric_def num_def)
      have nd: "\<not> js_le (num (priority ev)) p" using pr nl by (simp add: num_def)
      from tick_not_due[OF q t1 m1 nd]
      have m2: "mine ?i (queue that1') = [ev]" and f2: "firings ?i that1' = firings ?i that1"
        by simp_all
      from tick_keeps[OF q fp fts1 t1 n1]
      have k: "numeric (queue that1')" "timeScale that1' = timeScale that1" by simp_all
      have dd': "d = js_mul (num (interval ev)) (timeScale that1')" using dd k(2) ts1 by simp
      have er: "list_all (\<lambda>t. js_le t (num (endTime ev))) (due_times (js_add p d) d m)"
        using ends[OF assms(16)] nows by simp
      from ticks_repeat[OF q rest _ frest k(1) m2 ty dd' pr er lrest] k(2) fts1 f2 f1 nows
      show ?thesis by simp
    next
      case False
      with qq absent have m1: "mine ?i (queue that1) = []" by simp
      from tick_absent[OF q t1 m1]
      have m2: "mine ?i (queue that1') = []" and f2: "firings ?i that1' = firings ?i that1"
        by simp_all
      show ?thesis
      proof (cases m)
        case 0
        with rest f2 f1 nows show ?thesis by simp
      next
        case (Suc k)
        with assms(16) nows have "js_le (js_add p d) absEnd" by simp
        from js_le_gt_trans[OF this nl is_fin_not_NaN[OF fp]] False ps
        show ?thesis by simp
      qed
    qed
  qed
  with sch run show ?thesis by blast
qed


text \<open>
  The witness is the scenario of the spec: \<open>repeat(2, c, 0, 1)\<close> at time 0 fires at
  0, 0.5 and 1 (here with a one-time event for 10 also queued).
\<close>

theorem repeat_fires_at_due_times_witness:
  "quiet (\<lambda>c now e s. s)
   \<and> due_times (Fin 0) (Fin (1 / 2)) (Suc (Suc (Suc 0))) = [Fin 0, Fin (1 / 2), Fin 1]
   \<and> (\<exists>ev that1 that2.
        scheduleEvent (\<lambda>c now e s. s)
          \<lparr>ident = 7, type = Some ''repeat'', time = Some (Fin 0), freq = Some (Fin 2),
          endTime = Some (Fin 1), callback = Some 0, scheduledAt = None,
          interval = None, priority = None\<rparr>
          \<lparr>queue = [\<lparr>ident = 8, type = Some ''once'', time = Some (Fin 10), freq = None,
          endTime = None, callback = Some 1, scheduledAt = Some (Fin 0),
          interval = None, priority = Some (Fin 10)\<rparr>],
        timeScale = Fin 1, clock_time = Fin 0, trace = []\<rparr> = Inr (ev, that1) \<and>
        ticks (\<lambda>c now e s. s) [Fin 0, Fin (1 / 2), Fin 1] that1 = Some (Inr that2) \<and>
        firings 7 that2 =
          firings 7 \<lparr>queue = [\<lparr>ident = 8, type = Some ''once'', time = Some (Fin 10), freq = None,
          endTime = None, callback = Some 1, scheduledAt = Some (Fin 0),
          interval = None, priority = Some (Fin 10)\<rparr>],
        timeScale = Fin 1, clock_time = Fin 0, trace = []\<rparr> @ [Fin 0, Fin (1 / 2), Fin 1])"
proof -
  have q: "quiet (\<lambda>c now e s. s)" by (simp add: quiet_def)
  have g: "due_times (Fin 0) (Fin (1 / 2)) (Suc (Suc (Suc 0))) = [Fin 0, Fin (1 / 2), Fin 1]"
    "js_add (Fin 0) (Fin (1 / 2)) = Fin (1 / 2)" "js_add (Fin (1 / 2)) (Fin (1 / 2)) = Fin 1"
    by code_simp+
  have f: "numeric [\<lparr>ident = 8, type = Some ''once'', time = Some (Fin 10), freq = None,
          endTime = None, callback = Some 1, scheduledAt = Some (Fin 0),
          interval = None, priority = Some (Fin 10)\<rparr>]"
    "callable [\<lparr>ident = 8, type = Some ''once'', time = Some (Fin 10), freq = None,
          endTime = None, callback = Some 1, scheduledAt = Some (Fin 0),
          interval = None, priority = Some (Fin 10)\<rparr>]"
    "is_fin (js_div (Fin 1) (Fin 2))" "is_fin (Fin 1)"
    "js_add (Fin 1) (Fin 0) = Fin 1"
    "js_add (Fin 0) (js_mul (Fin 0) (Fin 1)) = Fin 0"
    "js_mul (js_div (Fin 1) (Fin 2)) (Fin 1) = Fin (1 / 2)"
    "list_all is_fin [Fin 0, Fin (1 / 2), Fin 1]"
    "list_all (\<lambda>time. js_le time (Fin 1)) [Fin 0, Fin (1 / 2), Fin 1]"
    "list_all (\<lambda>time. \<not> js_le (js_add time (Fin (1 / 2))) time) [Fin 0, Fin (1 / 2), Fin 1]"
    "steady [Fin 0, Fin (1 / 2), Fin 1] (Fin 1) [\<lparr>ident = 8, type = Some ''once'', time = Some (Fin 10), freq = None,
          endTime = None, callback = Some 1, scheduledAt = Some (Fin 0),
          interval = None, priority = Some (Fin 10)\<rparr>]"
    by code_simp+
  from repeat_fires_at_due_times [OF q, where cb = 0 and f = "Fin 2" and t = "Fin 0"
      and absEnd = "Fin 1" and p = "Fin 0" and d = "Fin (1 / 2)"
      and n = "Suc (Suc (Suc 0))" and nows = "[Fin 0, Fin (1 / 2), Fin 1]"
      and that = "\<lparr>queue = [\<lparr>ident = 8, type = Some ''once'', time = Some (Fin 10), freq = None,
          endTime = None, callback = Some 1, scheduledAt = Some (Fin 0),
          interval = None, priority = Some (Fin 10)\<rparr>],
        timeScale = Fin 1, clock_time = Fin 0, trace = []\<rparr>"
      and eventSpec = "\<lparr>ident = 7, type = Some ''repeat'', time = Some (Fin 0), freq = Some (Fin 2),
          endTime = Some (Fin 1), callback = Some 0, scheduledAt = None,
          interval = None, priority = None\<rparr>"] q g f
  show ?thesis by simp
qed

end
